theory Spec2Isabelle
  imports Main "HOL-Library.Word" "HOL-Library.Sublist"
begin

section \<open>Bytes, integers and formatting\<close>

text \<open>
  Go's \<open>[]byte\<close> and \<open>string\<close> are byte sequences: \<open>string\<close> here, one \<open>char\<close> per byte.
\<close>

definition ESC :: char where
  "ESC = CHR 0x1B"

definition BEL :: char where
  "BEL = CHR 0x07"

definition BACKSLASH :: char where
  "BACKSLASH = CHR 0x5C"

text \<open>\<open>math.MaxUint16\<close>.\<close>

definition maxTerminalDimension :: int where
  "maxTerminalDimension = 65535"

text \<open>
  Go's \<open>int\<close> is a signed 64-bit integer: the result of an arithmetic operation is the
  mathematical result wrapped into \<open>[-2^63, 2^63)\<close>.
\<close>

definition go_int :: "int \<Rightarrow> int" where
  "go_int x = (x + 2 ^ 63) mod 2 ^ 64 - 2 ^ 63"

text \<open>\<open>fmt.Sprintf("%d", x)\<close>: the decimal digits, with a minus sign for a negative number.\<close>

fun digits :: "nat \<Rightarrow> string" where
  "digits n =
     (if n < 10 then [''0123456789'' ! n]
      else digits (n div 10) @ [''0123456789'' ! (n mod 10)])"

declare digits.simps [simp del]

definition sprint_d :: "int \<Rightarrow> string" where
  "sprint_d x = (if x < 0 then CHR ''-'' # digits (nat (- x)) else digits (nat x))"

section \<open>The virtual screen model\<close>

text \<open>
  Modelled from the spec: the virtual screen model is the external library \<open>vt10x\<close>, whose
  code is not part of the repository. The functions below use two of its operations,
  \<open>vt10x.New(WithSize(cols, rows), WithWriter(w))\<close> and \<open>String()\<close>; what \<open>Write\<close> does to
  the grid is left open, and the theorems hold for every content of the grid. The model keeps
  what the spec's contract names: the size, the grid of characters, the cursor row, column
  and visibility, and the writer to which the model sends its own answers to device status
  reports. The writer of a model built without \<open>WithWriter\<close> discards what is written.
\<close>

datatype writer = Discard | PtyFile

record vt_state =
  vt_cols :: int
  vt_rows :: int
  vt_lines :: "string list"
  vt_cur_row :: int
  vt_cur_col :: int
  vt_cur_visible :: bool
  vt_writer :: writer

text \<open>
  Modelled from the spec: a model "constructed fresh with an explicit (cols, rows)" holds a
  blank grid of that size, \<open>rows\<close> lines of \<open>cols\<close> spaces, with the cursor at the origin.
\<close>

definition vt10x_New :: "int \<Rightarrow> int \<Rightarrow> writer \<Rightarrow> vt_state" where
  "vt10x_New c r w =
     \<lparr>vt_cols = c, vt_rows = r,
      vt_lines = replicate (nat r) (replicate (nat c) CHR '' ''),
      vt_cur_row = 0, vt_cur_col = 0, vt_cur_visible = True, vt_writer = w\<rparr>"

text \<open>
  Modelled from the spec: the "deterministic textual rendering of the current grid" is the
  lines of the grid, each followed by a newline.
\<close>

definition vt_String :: "vt_state \<Rightarrow> string" where
  "vt_String v = concat (map (\<lambda>l. l @ [CHR 0x0A]) (vt_lines v))"

section \<open>The terminal session\<close>

text \<open>
  The \<open>Terminal\<close> struct. The process handle, the lock, the \<open>done\<close> channel and the error
  slot play no part in the functions below; what is written to \<open>ptyFile\<close> is returned by
  the functions that write.
\<close>

record terminal =
  vt :: vt_state
  rows :: int
  cols :: int

record options =
  Rows :: int
  Cols :: int
  Env :: "string list"

definition DefaultOptions :: options where
  "DefaultOptions = \<lparr>Rows = 24, Cols = 80, Env = []\<rparr>"

section \<open>Synthetic responses\<close>

definition respondToDA1 :: string where
  "respondToDA1 = ESC # ''[?62;4c''"

definition respondToDA2 :: string where
  "respondToDA2 = ESC # ''[>1;0;0c''"

definition respondToWindowSizePixels :: "terminal \<Rightarrow> string" where
  "respondToWindowSizePixels t =
     (let height = go_int (rows t * 16); width = go_int (cols t * 8)
      in ESC # ''[4;'' @ sprint_d height @ '';'' @ sprint_d width @ ''t'')"

definition respondToTextAreaSize :: "terminal \<Rightarrow> string" where
  "respondToTextAreaSize t = ESC # ''[8;'' @ sprint_d (rows t) @ '';'' @ sprint_d (cols t) @ ''t''"

definition respondToScreenSize :: "terminal \<Rightarrow> string" where
  "respondToScreenSize t = ESC # ''[9;'' @ sprint_d (rows t) @ '';'' @ sprint_d (cols t) @ ''t''"

definition respondToBackgroundColorQuery :: string where
  "respondToBackgroundColorQuery = ESC # '']11;rgb:0000/0000/0000'' @ [ESC, BACKSLASH]"

definition respondToForegroundColorQuery :: string where
  "respondToForegroundColorQuery = ESC # '']10;rgb:ffff/ffff/ffff'' @ [ESC, BACKSLASH]"

section \<open>The query interceptor\<close>

text \<open>
  Each \<open>tryHandle\<close> function returns the number of bytes to skip together with the strings it
  wrote to the PTY, in order. The reads \<open>data[i+k]\<close> are guarded by the same length tests
  as in the source.
\<close>

definition tryHandleXTWINOPS :: "terminal \<Rightarrow> string \<Rightarrow> nat \<Rightarrow> nat \<times> string list" where
  "tryHandleXTWINOPS t data i =
     (if i + 4 \<ge> length data then (0, [])
      else if data ! (i + 2) \<noteq> CHR ''1'' then (0, [])
      else if data ! (i + 3) = CHR ''4'' \<and> data ! (i + 4) = CHR ''t''
        then (5, [respondToWindowSizePixels t])
      else if data ! (i + 3) = CHR ''8'' \<and> data ! (i + 4) = CHR ''t''
        then (5, [respondToTextAreaSize t])
      else if data ! (i + 3) = CHR ''9'' \<and> data ! (i + 4) = CHR ''t''
        then (5, [respondToScreenSize t])
      else (0, []))"

definition tryHandleCSIQuery :: "terminal \<Rightarrow> string \<Rightarrow> nat \<Rightarrow> nat \<times> string list" where
  "tryHandleCSIQuery t data i =
     (if i + 2 \<ge> length data \<or> data ! (i + 1) \<noteq> CHR ''['' then (0, [])
      else if data ! (i + 2) = CHR ''c'' then (3, [respondToDA1])
      else if i + 3 < length data \<and> data ! (i + 2) = CHR ''0'' \<and> data ! (i + 3) = CHR ''c''
        then (4, [respondToDA1])
      else if data ! (i + 2) = CHR ''>'' \<and> i + 3 < length data \<and> data ! (i + 3) = CHR ''c''
        then (4, [respondToDA2])
      else if data ! (i + 2) = CHR ''>'' \<and> i + 4 < length data
              \<and> data ! (i + 3) = CHR ''0'' \<and> data ! (i + 4) = CHR ''c''
        then (5, [respondToDA2])
      else (let (skip, w) = tryHandleXTWINOPS t data i
            in if skip > 0 then (skip, w) else (0, w)))"

text \<open>
  \<open>findOSCEnd\<close>: the position after the first terminator at or after \<open>offset\<close>, or \<open>-1\<close>.
\<close>

function findOSCEnd :: "string \<Rightarrow> nat \<Rightarrow> int" where
  "findOSCEnd data i =
     (if i < length data then
        (if data ! i = BEL then int i + 1
         else if data ! i = ESC \<and> i + 1 < length data \<and> data ! (i + 1) = BACKSLASH
           then int i + 2
         else findOSCEnd data (i + 1))
      else - 1)"
  by pat_completeness auto
termination
  by (relation "measure (\<lambda>(data, i). length data - i)") auto

declare findOSCEnd.simps [simp del]

definition tryHandleOSCQuery :: "terminal \<Rightarrow> string \<Rightarrow> nat \<Rightarrow> nat \<times> string list" where
  "tryHandleOSCQuery t data i =
     (if i + 4 \<ge> length data \<or> data ! (i + 1) \<noteq> CHR '']'' then (0, [])
      else if data ! (i + 2) = CHR ''1'' \<and> data ! (i + 3) = CHR ''1'' \<and> data ! (i + 4) = CHR '';''
              \<and> findOSCEnd data (i + 5) > int i
        then (nat (findOSCEnd data (i + 5) - int i), [respondToBackgroundColorQuery])
      else if data ! (i + 2) = CHR ''1'' \<and> data ! (i + 3) = CHR ''0'' \<and> data ! (i + 4) = CHR '';''
              \<and> findOSCEnd data (i + 5) > int i
        then (nat (findOSCEnd data (i + 5) - int i), [respondToForegroundColorQuery])
      else (0, []))"

definition tryHandleQuery :: "terminal \<Rightarrow> string \<Rightarrow> nat \<Rightarrow> nat \<times> string list" where
  "tryHandleQuery t data i =
     (let (skip, w) = tryHandleCSIQuery t data i
      in if skip > 0 then (skip, w)
         else (let (skip', w') = tryHandleOSCQuery t data i
               in if skip' > 0 then (skip', w @ w') else (0, w @ w')))"

text \<open>
  The loop of \<open>handleTerminalQueries\<close>, with the filtered bytes and the writes made so far
  as accumulators.
\<close>

function handleLoop ::
  "terminal \<Rightarrow> string \<Rightarrow> nat \<Rightarrow> string \<Rightarrow> string list \<Rightarrow> string \<times> string list" where
  "handleLoop t data i result written =
     (if i < length data then
        (if data ! i = ESC \<and> i + 1 < length data then
           (if fst (tryHandleQuery t data i) > 0
            then handleLoop t data (i + fst (tryHandleQuery t data i)) result
                   (written @ snd (tryHandleQuery t data i))
            else handleLoop t data (i + 1) (result @ [data ! i])
                   (written @ snd (tryHandleQuery t data i)))
         else handleLoop t data (i + 1) (result @ [data ! i]) written)
      else (result, written))"
  by pat_completeness auto
termination
  by (relation "measure (\<lambda>(t, data, i, result, written). length data - i)") auto

declare handleLoop.simps [simp del]

definition handleTerminalQueries :: "terminal \<Rightarrow> string \<Rightarrow> string \<times> string list" where
  "handleTerminalQueries t data = handleLoop t data 0 [] []"

section \<open>Creating and resizing a session\<close>

text \<open>
  The operating system is a parameter: \<open>os_start\<close> is the outcome of \<open>pty.StartWithSize\<close> for
  a command, its arguments and a window size, \<open>os_setsize\<close> the outcome of \<open>pty.Setsize\<close>;
  \<open>None\<close> is success. The fields of \<open>pty.Winsize\<close> are \<open>uint16\<close>, and the conversion
  \<open>uint16(x)\<close> of a Go \<open>int\<close> keeps its low 16 bits: \<open>word_of_int\<close>.
\<close>

record winsize =
  ws_Rows :: "16 word"
  ws_Cols :: "16 word"

type_synonym os_error = string

record os =
  os_start :: "string \<Rightarrow> string list \<Rightarrow> winsize \<Rightarrow> os_error option"
  os_setsize :: "winsize \<Rightarrow> os_error option"

text \<open>The calls a function made to the operating system's sizing interface, in order.\<close>

datatype os_call = StartWithSize winsize | Setsize winsize

text \<open>
  The errors the functions return: \<open>RowsOutOfRange\<close> is
  \<open>fmt.Errorf("rows must be between 0 and %d", maxTerminalDimension)\<close>, \<open>ColsOutOfRange\<close> the same
  for \<open>cols\<close>, \<open>StartFailed e\<close> is \<open>fmt.Errorf("failed to start PTY: %w", e)\<close>, \<open>OsError e\<close> an
  error of the operating system returned as it is, \<open>StableTimeout\<close> is
  \<open>fmt.Errorf("timeout waiting for stable screen")\<close> and \<open>TextTimeout text\<close> is
  \<open>fmt.Errorf("timeout waiting for text: %q", text)\<close>.
\<close>

datatype error =
    RowsOutOfRange
  | ColsOutOfRange
  | StartFailed os_error
  | OsError os_error
  | StableTimeout
  | TextTimeout string

text \<open>
  \<open>New\<close> returns the session or the error, and the calls made to the operating system.
  The reader goroutine it starts is \<open>handleTerminalQueries\<close> applied to each buffer read.
\<close>

definition New :: "os \<Rightarrow> string \<Rightarrow> string list \<Rightarrow> options \<Rightarrow> (error + terminal) \<times> os_call list" where
  "New os command args opts =
     (let r = (if Rows opts = 0 then 24 else Rows opts);
          c = (if Cols opts = 0 then 80 else Cols opts)
      in if r < 0 \<or> r > maxTerminalDimension then (Inl RowsOutOfRange, [])
         else if c < 0 \<or> c > maxTerminalDimension then (Inl ColsOutOfRange, [])
         else (let ws = \<lparr>ws_Rows = word_of_int r, ws_Cols = word_of_int c\<rparr>
               in case os_start os command args ws of
                    Some e \<Rightarrow> (Inl (StartFailed e), [StartWithSize ws])
                  | None \<Rightarrow>
                      (Inr \<lparr>vt = vt10x_New c r PtyFile, rows = r, cols = c\<rparr>,
                       [StartWithSize ws])))"

text \<open>
  \<open>Resize(cols, rows)\<close> mutates the session in place and returns an error or \<open>nil\<close>
  (\<open>None\<close>): the model returns the error, the session after the call, and the calls made
  to the operating system.
\<close>

definition Resize :: "os \<Rightarrow> terminal \<Rightarrow> int \<Rightarrow> int \<Rightarrow> error option \<times> terminal \<times> os_call list" where
  "Resize os t c r =
     (if r < 0 \<or> r > maxTerminalDimension then (Some RowsOutOfRange, t, [])
      else if c < 0 \<or> c > maxTerminalDimension then (Some ColsOutOfRange, t, [])
      else (let ws = \<lparr>ws_Rows = word_of_int r, ws_Cols = word_of_int c\<rparr>
            in case os_setsize os ws of
                 Some e \<Rightarrow> (Some (OsError e), t, [Setsize ws])
               | None \<Rightarrow>
                   (None, t\<lparr>rows := r, cols := c, vt := vt10x_New c r Discard\<rparr>,
                    [Setsize ws])))"

definition Size :: "terminal \<Rightarrow> int \<times> int" where
  "Size t = (cols t, rows t)"

section \<open>Snapshots\<close>

definition Screenshot :: "terminal \<Rightarrow> string" where
  "Screenshot t = vt_String (vt t)"

definition ScreenshotWithCursor :: "terminal \<Rightarrow> string" where
  "ScreenshotWithCursor t = (let screen = vt_String (vt t) in screen)"

section \<open>Waiting for the screen\<close>

text \<open>
  \<open>strings.Contains(screen, text)\<close> holds when \<open>text\<close> occurs in \<open>screen\<close> as a contiguous
  run of bytes: \<open>sublist text screen\<close>.
\<close>

definition containsText :: "string \<Rightarrow> string \<Rightarrow> bool" where
  "containsText screen text \<longleftrightarrow> text \<noteq> [] \<and> screen \<noteq> [] \<and> sublist text screen"

text \<open>
  The two waiting loops read the clock and the session, which the reader goroutine changes
  between two polls. One iteration of a loop is a \<open>poll\<close>: \<open>p_check\<close> is the time
  \<open>time.Now()\<close> returns in the loop condition, \<open>p_term\<close> the session when \<open>Screenshot\<close>
  runs, and \<open>p_now\<close> the time read in the body (by \<open>time.Now()\<close> or \<open>time.Since\<close>); times and
  durations are integers counted in one unit (Go counts nanoseconds). The loops run on the list of the polls to come, and return
  \<open>None\<close> when the list ends before the loop returns; \<open>Some None\<close> is the return of \<open>nil\<close>
  and \<open>Some (Some e)\<close> the return of the error \<open>e\<close>.
\<close>

record poll =
  p_check :: int
  p_term :: terminal
  p_now :: int

text \<open>
  The loop of \<open>WaitForStable\<close>. \<open>stableSince\<close> is \<open>None\<close> while it is the zero \<open>time.Time\<close>.
\<close>

fun stableLoop ::
  "int \<Rightarrow> int \<Rightarrow> string \<Rightarrow> int option \<Rightarrow> poll list \<Rightarrow> error option option" where
  "stableLoop deadline stableDuration lastScreen stableSince [] = None"
| "stableLoop deadline stableDuration lastScreen stableSince (p # ps) =
     (if p_check p < deadline then
        (let screen = Screenshot (p_term p)
         in if screen \<noteq> lastScreen
              then stableLoop deadline stableDuration screen (Some (p_now p)) ps
            else if (case stableSince of None \<Rightarrow> False
                     | Some since \<Rightarrow> p_now p - since \<ge> stableDuration)
              then Some None
            else stableLoop deadline stableDuration lastScreen stableSince ps)
      else Some (Some StableTimeout))"

text \<open>\<open>start\<close> is the time at which \<open>WaitForStable\<close> computes its deadline.\<close>

definition WaitForStable :: "int \<Rightarrow> int \<Rightarrow> int \<Rightarrow> poll list \<Rightarrow> error option option" where
  "WaitForStable start timeout stableDuration polls =
     stableLoop (start + timeout) stableDuration [] None polls"

fun textLoop :: "int \<Rightarrow> string \<Rightarrow> poll list \<Rightarrow> error option option" where
  "textLoop deadline text [] = None"
| "textLoop deadline text (p # ps) =
     (if p_check p < deadline then
        (if containsText (Screenshot (p_term p)) text then Some None
         else textLoop deadline text ps)
      else Some (Some (TextTimeout text)))"

definition WaitForText :: "int \<Rightarrow> string \<Rightarrow> int \<Rightarrow> poll list \<Rightarrow> error option option" where
  "WaitForText start text timeout polls = textLoop (start + timeout) text polls"

section \<open>Notions used to state the properties\<close>

text \<open>The value of a string of decimal digits.\<close>

definition decimal_value :: "string \<Rightarrow> nat" where
  "decimal_value s = foldl (\<lambda>a ch. 10 * a + (of_char ch - 48)) 0 s"

text \<open>
  For the waiting loops: \<open>screen_of p\<close> is the text seen at a poll, and \<open>expired deadline ps k\<close>
  says that the loop condition fails at poll \<open>k\<close>. \<open>dwell ps k\<close> is the time for which the
  text of poll \<open>k\<close> has been seen without interruption: the polls just before \<open>k\<close> that show
  the same text form a run, and the dwell time runs from the earliest poll of that run to
  poll \<open>k\<close>; it is \<open>None\<close> when poll \<open>k\<close> is the first poll or shows a text other than the poll
  before it. \<open>unchanged_for d ps k\<close>: the text has been seen unchanged for at least \<open>d\<close> at
  poll \<open>k\<close>. \<open>seen_nonempty ps k\<close>: some poll up to \<open>k\<close> showed a text that is not empty.
\<close>

definition screen_of :: "poll \<Rightarrow> string" where
  "screen_of p = Screenshot (p_term p)"

definition expired :: "int \<Rightarrow> poll list \<Rightarrow> nat \<Rightarrow> bool" where
  "expired deadline ps k \<longleftrightarrow> \<not> p_check (ps ! k) < deadline"

definition dwell :: "poll list \<Rightarrow> nat \<Rightarrow> int option" where
  "dwell ps k =
     (case takeWhile (\<lambda>q. screen_of q = screen_of (ps ! k)) (rev (take k ps)) of
        [] \<Rightarrow> None
      | q # qs \<Rightarrow> Some (p_now (ps ! k) - p_now (last (q # qs))))"

definition unchanged_for :: "int \<Rightarrow> poll list \<Rightarrow> nat \<Rightarrow> bool" where
  "unchanged_for d ps k \<longleftrightarrow> (case dwell ps k of None \<Rightarrow> False | Some x \<Rightarrow> d \<le> x)"

definition seen_nonempty :: "poll list \<Rightarrow> nat \<Rightarrow> bool" where
  "seen_nonempty ps k \<longleftrightarrow> (\<exists>q \<in> set (take (Suc k) ps). screen_of q \<noteq> [])"

text \<open>
  \<open>first_event late settled ks\<close> is the outcome decided by the first poll of \<open>ks\<close> that is late
  or settled: the timeout error when it is late, success otherwise, and no return when
  there is no such poll.
\<close>

definition first_event :: "(nat \<Rightarrow> bool) \<Rightarrow> (nat \<Rightarrow> bool) \<Rightarrow> nat list \<Rightarrow> error option option" where
  "first_event late settled ks =
     (case find (\<lambda>k. late k \<or> settled k) ks of
        None \<Rightarrow> None
      | Some k \<Rightarrow> if late k then Some (Some StableTimeout) else Some None)"

text \<open>
  For the interceptor: \<open>osc_terminated s\<close> says that \<open>s\<close> holds a terminator of a colour query,
  the byte \<open>BEL\<close> or the sequence \<open>ESC\<close> backslash. \<open>open_osc s\<close> says that \<open>s\<close> holds a colour
  query left open: a prefix \<open>ESC ] 1 0 ;\<close> or \<open>ESC ] 1 1 ;\<close> with no terminator in the bytes of
  \<open>s\<close> after it. \<open>colour_response d\<close> is the response to the colour query \<open>ESC ] 1 d ;\<close>.
\<close>

definition osc_terminated :: "string \<Rightarrow> bool" where
  "osc_terminated s \<longleftrightarrow> BEL \<in> set s \<or> sublist [ESC, BACKSLASH] s"

fun open_osc :: "string \<Rightarrow> bool" where
  "open_osc [] = False"
| "open_osc (x # xs) =
     ((x = ESC \<and> (take 4 xs = '']10;'' \<or> take 4 xs = '']11;'') \<and> \<not> osc_terminated (drop 4 xs))
      \<or> open_osc xs)"

definition colour_response :: "char \<Rightarrow> string" where
  "colour_response d =
     (if d = CHR ''1'' then respondToBackgroundColorQuery else respondToForegroundColorQuery)"

section \<open>Example sessions and runs\<close>

text \<open>
  An operating system on which every call succeeds, and one on which \<open>pty.Setsize\<close> fails (as
  on a PTY that has been closed).
\<close>

definition os_ok :: os where
  "os_ok = \<lparr>os_start = (\<lambda>command args ws. None), os_setsize = (\<lambda>ws. None)\<rparr>"

definition os_closed :: os where
  "os_closed = \<lparr>os_start = (\<lambda>command args ws. None),
                 os_setsize = (\<lambda>ws. Some ''bad file descriptor'')\<rparr>"

text \<open>
  \<open>session0\<close> is the session \<open>New\<close> creates with the default options, \<open>session_hello\<close> a
  session of 2 rows and 5 columns whose screen shows \<open>hello\<close>, \<open>session_blank\<close> a blank session
  of the same size, and \<open>session_norows\<close> the session after \<open>Resize(80, 0)\<close>.
\<close>

definition session0 :: terminal where
  "session0 = \<lparr>vt = vt10x_New 80 24 PtyFile, rows = 24, cols = 80\<rparr>"

definition session_hello :: terminal where
  "session_hello =
     \<lparr>vt = (vt10x_New 5 2 PtyFile)\<lparr>vt_lines := [''hello'', ''     ''], vt_cur_col := 5\<rparr>,
      rows = 2, cols = 5\<rparr>"

definition session_blank :: terminal where
  "session_blank = \<lparr>vt = vt10x_New 5 2 PtyFile, rows = 2, cols = 5\<rparr>"

definition session_norows :: terminal where
  "session_norows = \<lparr>vt = vt10x_New 80 0 Discard, rows = 0, cols = 80\<rparr>"

text \<open>Runs of polls, 50 ms apart (times in ms): a poll at \<open>time\<close> reads the clock as \<open>time\<close>.\<close>

definition poll_at :: "int \<Rightarrow> terminal \<Rightarrow> poll" where
  "poll_at time t = \<lparr>p_check = time, p_term = t, p_now = time\<rparr>"

definition polls_hello :: "poll list" where
  "polls_hello = [poll_at 0 session_hello, poll_at 50 session_hello, poll_at 100 session_hello,
                  poll_at 150 session_hello]"

definition polls_flicker :: "poll list" where
  "polls_flicker = [poll_at 0 session_hello, poll_at 50 session_blank, poll_at 100 session_hello,
                    poll_at 150 session_blank]"

definition polls_norows :: "poll list" where
  "polls_norows = [poll_at 0 session_norows, poll_at 50 session_norows, poll_at 100 session_norows,
                   poll_at 150 session_norows, poll_at 1000 session_norows]"

section \<open>The interceptor as a function on the remaining input\<close>

text \<open>
  The loop of \<open>handleTerminalQueries\<close> reads \<open>data\<close> through the index \<open>i\<close> and never looks
  behind it, so scanning from \<open>i\<close> is scanning the rest of the buffer from its start.
\<close>

lemma handleLoop_end: "length data \<le> i \<Longrightarrow> handleLoop t data i r w = (r, w)"
  by (simp add: handleLoop.simps)

lemma handleLoop_acc:
  "handleLoop t data i r w =
     (r @ fst (handleLoop t data i [] []), w @ snd (handleLoop t data i [] []))"
proof (induction "length data - i" arbitrary: i r w rule: less_induct)
  case less
  note unf = handleLoop.simps [of t data i]
  show ?case
  proof (cases "i < length data")
    case False
    then show ?thesis by (simp add: unf)
  next
    case True
    show ?thesis
    proof (cases "data ! i = ESC \<and> i + 1 < length data")
      case esc: True
      show ?thesis
      proof (cases "0 < fst (tryHandleQuery t data i)")
        case pos: True
        have "handleLoop t data i r w
                = handleLoop t data (i + fst (tryHandleQuery t data i)) r
                    (w @ snd (tryHandleQuery t data i))"
          using True esc pos by (simp add: unf)
        moreover have "handleLoop t data i [] []
                = handleLoop t data (i + fst (tryHandleQuery t data i)) []
                    (snd (tryHandleQuery t data i))"
          using True esc pos by (simp add: unf)
        ultimately show ?thesis
          using less [of "i + fst (tryHandleQuery t data i)" r "w @ snd (tryHandleQuery t data i)"]
                less [of "i + fst (tryHandleQuery t data i)" "[]" "snd (tryHandleQuery t data i)"]
                True pos
          by simp
      next
        case nopos: False
        have "handleLoop t data i r w
                = handleLoop t data (i + 1) (r @ [data ! i])
                    (w @ snd (tryHandleQuery t data i))"
          using True esc nopos by (simp add: unf)
        moreover have "handleLoop t data i [] []
                = handleLoop t data (i + 1) [data ! i] (snd (tryHandleQuery t data i))"
          using True esc nopos by (simp add: unf)
        ultimately show ?thesis
          using less [of "i + 1" "r @ [data ! i]" "w @ snd (tryHandleQuery t data i)"]
                less [of "i + 1" "[data ! i]" "snd (tryHandleQuery t data i)"] True
          by simp
      qed
    next
      case noesc: False
      have "handleLoop t data i r w = handleLoop t data (i + 1) (r @ [data ! i]) w"
        using True noesc by (auto simp: unf)
      moreover have "handleLoop t data i [] [] = handleLoop t data (i + 1) [data ! i] []"
        using True noesc by (auto simp: unf)
      ultimately show ?thesis
        using less [of "i + 1" "r @ [data ! i]" w]
              less [of "i + 1" "[data ! i]" "[]"] True
        by simp
    qed
  qed
qed

lemma findOSCEnd_range: "findOSCEnd data i = - 1 \<or> int i < findOSCEnd data i"
proof (induction data i rule: findOSCEnd.induct)
  case (1 data i)
  then show ?case
    by (subst (1 2) findOSCEnd.simps) auto
qed

lemma findOSCEnd_append:
  "findOSCEnd (pre @ suf) (length pre + j) =
     (if findOSCEnd suf j < 0 then - 1 else findOSCEnd suf j + int (length pre))"
proof (induction suf j rule: findOSCEnd.induct)
  case (1 suf j)
  have nth: "\<And>k. (pre @ suf) ! (length pre + k) = suf ! k"
    by (simp add: nth_append)
  show ?case
  proof (cases "j < length suf")
    case False
    then show ?thesis
      by (simp add: findOSCEnd.simps [of _ "length pre + j"] findOSCEnd.simps [of _ j])
  next
    case True
    show ?thesis
    proof (cases "suf ! j = BEL \<or> (suf ! j = ESC \<and> j + 1 < length suf \<and> suf ! (j + 1) = BACKSLASH)")
      case True
      with \<open>j < length suf\<close> show ?thesis
        using nth [of j] nth [of "j + 1"]
        by (auto simp: findOSCEnd.simps [of _ "length pre + j"] findOSCEnd.simps [of _ j] add.assoc)
    next
      case False
      with \<open>j < length suf\<close> "1.IH" show ?thesis
        using nth [of j] nth [of "j + 1"]
        by (auto simp: findOSCEnd.simps [of _ "length pre + j"] findOSCEnd.simps [of _ j] add.assoc)
    qed
  qed
qed

lemma nth_append_shift: "(pre @ suf) ! (length pre + k) = suf ! k"
  by (simp add: nth_append)

lemma nth_append_shift':
  "(pre @ suf) ! (length pre + j + k) = suf ! (j + k)"
  "(pre @ suf) ! Suc (length pre + j) = suf ! Suc j"
  "(pre @ suf) ! Suc (Suc (length pre + j)) = suf ! Suc (Suc j)"
  by (simp_all add: nth_append)

lemma tryHandleXTWINOPS_append:
  "tryHandleXTWINOPS t (pre @ suf) (length pre + j) = tryHandleXTWINOPS t suf j"
  by (simp add: tryHandleXTWINOPS_def nth_append_shift')

lemma tryHandleCSIQuery_append:
  "tryHandleCSIQuery t (pre @ suf) (length pre + j) = tryHandleCSIQuery t suf j"
  by (simp add: tryHandleCSIQuery_def tryHandleXTWINOPS_append nth_append_shift')

lemma tryHandleOSCQuery_append:
  "tryHandleOSCQuery t (pre @ suf) (length pre + j) = tryHandleOSCQuery t suf j"
proof -
  have e: "findOSCEnd (pre @ suf) (length pre + j + 5) =
        (if findOSCEnd suf (j + 5) < 0 then - 1 else findOSCEnd suf (j + 5) + int (length pre))"
    using findOSCEnd_append [of pre suf "j + 5"] by (simp add: add.assoc)
  show ?thesis
    using findOSCEnd_range [of suf "j + 5"]
    by (auto simp: tryHandleOSCQuery_def nth_append_shift' e)
qed

lemma tryHandleQuery_append:
  "tryHandleQuery t (pre @ suf) (length pre + j) = tryHandleQuery t suf j"
  unfolding tryHandleQuery_def tryHandleCSIQuery_append tryHandleOSCQuery_append
  by (rule refl)

lemma handleLoop_append:
  "handleLoop t (pre @ suf) (length pre + j) r w = handleLoop t suf j r w"
proof (induction "length suf - j" arbitrary: j r w rule: less_induct)
  case less
  note unf = handleLoop.simps [of t "pre @ suf" "length pre + j"] handleLoop.simps [of t suf j]
  note q = tryHandleQuery_append [of t pre suf j]
  show ?case
  proof (cases "j < length suf")
    case False
    then show ?thesis by (simp add: unf)
  next
    case True
    show ?thesis
    proof (cases "0 < fst (tryHandleQuery t suf j)")
      case pos: True
      show ?thesis
        using True pos less [of "j + fst (tryHandleQuery t suf j)"] less [of "j + 1"]
        by (simp add: unf q nth_append_shift add.assoc)
    next
      case nopos: False
      show ?thesis
        using True nopos less [of "j + 1"]
        by (simp add: unf q nth_append_shift add.assoc)
    qed
  qed
qed

lemma handleLoop_suffix:
  "handleLoop t (pre @ suf) (length pre) r w =
     (r @ fst (handleTerminalQueries t suf), w @ snd (handleTerminalQueries t suf))"
  using handleLoop_append [of t pre suf 0 r w] handleLoop_acc [of t suf 0 r w]
  by (simp add: handleTerminalQueries_def)

lemma handleTerminalQueries_Nil: "handleTerminalQueries t [] = ([], [])"
  by (simp add: handleTerminalQueries_def handleLoop_end)

lemma handleTerminalQueries_plain:
  assumes "x \<noteq> ESC \<or> xs = []"
  shows "handleTerminalQueries t (x # xs) =
           (x # fst (handleTerminalQueries t xs), snd (handleTerminalQueries t xs))"
proof -
  have "handleTerminalQueries t (x # xs) = handleLoop t ([x] @ xs) (length [x]) [x] []"
    using assms by (auto simp: handleTerminalQueries_def handleLoop.simps [of t "x # xs" 0])
  then show ?thesis
    by (simp only: handleLoop_suffix) simp
qed

lemma handleTerminalQueries_skip:
  assumes q: "tryHandleQuery t (ESC # xs) 0 = (k, ws)" and k: "0 < k" "k \<le> Suc (length xs)"
    and xs: "xs \<noteq> []"
  shows "handleTerminalQueries t (ESC # xs) =
           (fst (handleTerminalQueries t (drop k (ESC # xs))),
            ws @ snd (handleTerminalQueries t (drop k (ESC # xs))))"
proof -
  let ?d = "ESC # xs"
  have len: "length (take k ?d) = k"
    using k by simp
  have "handleTerminalQueries t ?d = handleLoop t ?d k [] ws"
    using q k xs by (simp add: handleTerminalQueries_def handleLoop.simps [of t ?d 0])
  also have "\<dots> = handleLoop t (take k ?d @ drop k ?d) (length (take k ?d)) [] ws"
    by (simp only: len append_take_drop_id)
  also have "\<dots> = ([] @ fst (handleTerminalQueries t (drop k ?d)),
                     ws @ snd (handleTerminalQueries t (drop k ?d)))"
    by (rule handleLoop_suffix)
  finally show ?thesis by simp
qed

lemma handleTerminalQueries_pass:
  assumes q: "tryHandleQuery t (ESC # xs) 0 = (0, ws)" and xs: "xs \<noteq> []"
  shows "handleTerminalQueries t (ESC # xs) =
           (ESC # fst (handleTerminalQueries t xs), ws @ snd (handleTerminalQueries t xs))"
proof -
  have "handleTerminalQueries t (ESC # xs) = handleLoop t ([ESC] @ xs) (length [ESC]) [ESC] ws"
    using q xs by (simp add: handleTerminalQueries_def handleLoop.simps [of t "ESC # xs" 0])
  then show ?thesis
    by (simp only: handleLoop_suffix) simp
qed

lemma handleTerminalQueries_plain_prefix:
  "ESC \<notin> set pre \<Longrightarrow>
   handleTerminalQueries t (pre @ suf) =
     (pre @ fst (handleTerminalQueries t suf), snd (handleTerminalQueries t suf))"
  by (induction pre) (auto simp: handleTerminalQueries_plain)

section \<open>Scanning up to an escape character\<close>

text \<open>
  No pattern of the interceptor holds an escape character after its first byte, except the
  terminator \<open>ESC\<close> backslash of a colour query. So when the bytes from an escape character
  on hold no terminator, no match that starts before that escape character reaches it, and
  the scan of the whole buffer is the scan of the bytes before it followed by the scan of
  the bytes from it on.
\<close>

lemma findOSCEnd_none:
  "BEL \<notin> set (drop j s) \<Longrightarrow> \<not> sublist [ESC, BACKSLASH] (drop j s) \<Longrightarrow> findOSCEnd s j = - 1"
proof (induction s j rule: findOSCEnd.induct)
  case (1 data i)
  show ?case
  proof (cases "i < length data")
    case False
    then show ?thesis by (simp add: findOSCEnd.simps [of data i])
  next
    case True
    then have d: "drop i data = data ! i # drop (Suc i) data"
      by (simp add: Cons_nth_drop_Suc)
    have nb: "data ! i \<noteq> BEL" and nb': "BEL \<notin> set (drop (Suc i) data)"
      using "1.prems"(1) d by auto
    have ns': "\<not> sublist [ESC, BACKSLASH] (drop (Suc i) data)"
      using "1.prems"(2) d by (simp add: sublist_Cons_right)
    have np: "\<not> (data ! i = ESC \<and> i + 1 < length data \<and> data ! (i + 1) = BACKSLASH)"
    proof
      assume a: "data ! i = ESC \<and> i + 1 < length data \<and> data ! (i + 1) = BACKSLASH"
      then have "drop (Suc i) data = BACKSLASH # drop (Suc (Suc i)) data"
        using Cons_nth_drop_Suc [of "Suc i" data] by simp
      with a d have "drop i data = [ESC, BACKSLASH] @ drop (Suc (Suc i)) data"
        by simp
      then have "sublist [ESC, BACKSLASH] (drop i data)"
        by (metis sublist_append_rightI)
      with "1.prems"(2) show False by simp
    qed
    have "findOSCEnd data (i + 1) = - 1"
      using "1.IH" [OF True nb np] nb' ns' by simp
    then show ?thesis
      using True nb np by (auto simp: findOSCEnd.simps [of data i])
  qed
qed

lemma findOSCEnd_le: "findOSCEnd data j \<le> int (length data)"
proof (induction data j rule: findOSCEnd.induct)
  case (1 data i)
  then show ?case
    by (subst findOSCEnd.simps) auto
qed

lemma findOSCEnd_context:
  assumes "BEL \<notin> set q" "\<not> sublist [ESC, BACKSLASH] (ESC # q)" "j \<le> length s"
  shows "findOSCEnd (s @ ESC # q) j = findOSCEnd s j"
  using assms(3)
proof (induction "length s - j" arbitrary: j rule: less_induct)
  case less
  show ?case
  proof (cases "j < length s")
    case False
    then have j: "j = length s"
      using less.prems by simp
    have "BEL \<notin> set (drop 0 (ESC # q))"
      using assms(1) by (simp add: BEL_def ESC_def)
    then have "findOSCEnd (ESC # q) 0 = - 1"
      using assms(2) findOSCEnd_none [of 0 "ESC # q"] by simp
    then have "findOSCEnd (s @ ESC # q) (length s + 0) = - 1"
      by (simp only: findOSCEnd_append) simp
    then show ?thesis
      using j by (simp add: findOSCEnd.simps [of s "length s"])
  next
    case True
    have n: "(s @ ESC # q) ! j = s ! j"
      using True by (simp add: nth_append)
    have ih: "findOSCEnd (s @ ESC # q) (j + 1) = findOSCEnd s (j + 1)"
      using True by (intro less) auto
    have e: "ESC \<noteq> BACKSLASH"
      by (simp add: ESC_def BACKSLASH_def)
    show ?thesis
    proof (cases "j + 1 < length s")
      case inside: True
      then have "(s @ ESC # q) ! (j + 1) = s ! (j + 1)"
        by (simp add: nth_append)
      then show ?thesis
        using True inside n ih
        by (simp add: findOSCEnd.simps [of "s @ ESC # q" j] findOSCEnd.simps [of s j])
    next
      case edge: False
      then have "(s @ ESC # q) ! (j + 1) = ESC"
        using True by (simp add: nth_append)
      then show ?thesis
        using True edge n ih e
        by (simp add: findOSCEnd.simps [of "s @ ESC # q" j] findOSCEnd.simps [of s j])
    qed
  qed
qed

lemma nth_context: "k < length s \<Longrightarrow> (s @ u) ! k = s ! k"
  by (simp add: nth_append)

lemma tryHandleXTWINOPS_long:
  "4 < length s \<Longrightarrow> tryHandleXTWINOPS t (s @ u) 0 = tryHandleXTWINOPS t s 0"
  by (simp add: tryHandleXTWINOPS_def nth_context)

lemma tryHandleCSIQuery_long:
  "4 < length s \<Longrightarrow> tryHandleCSIQuery t (s @ u) 0 = tryHandleCSIQuery t s 0"
  by (simp add: tryHandleCSIQuery_def tryHandleXTWINOPS_long nth_context)

lemma tryHandleOSCQuery_long:
  assumes "BEL \<notin> set q" "\<not> sublist [ESC, BACKSLASH] (ESC # q)" "4 < length s"
  shows "tryHandleOSCQuery t (s @ ESC # q) 0 = tryHandleOSCQuery t s 0"
proof -
  have "findOSCEnd (s @ ESC # q) 5 = findOSCEnd s 5"
    using assms by (intro findOSCEnd_context) simp_all
  then show ?thesis
    using assms(3) by (simp add: tryHandleOSCQuery_def nth_context)
qed

lemma tryHandleQuery_context:
  assumes "BEL \<notin> set q" "\<not> sublist [ESC, BACKSLASH] (ESC # q)"
  shows "tryHandleQuery t ((x # xs) @ ESC # q) 0 = tryHandleQuery t (x # xs) 0"
proof (cases "4 < length (x # xs)")
  case True
  show ?thesis
    unfolding tryHandleQuery_def tryHandleCSIQuery_long [OF True]
      tryHandleOSCQuery_long [OF assms True]
    by (rule refl)
next
  case False
  then consider "xs = []" | a where "xs = [a]" | a b where "xs = [a, b]"
    | a b c where "xs = [a, b, c]"
    by (cases xs; cases "tl xs"; cases "tl (tl xs)"; cases "tl (tl (tl xs))") auto
  then show ?thesis
    by cases
      (simp_all add: tryHandleQuery_def tryHandleCSIQuery_def tryHandleXTWINOPS_def
        tryHandleOSCQuery_def ESC_def)
qed

lemma tryHandleQuery_single: "tryHandleQuery t [x] 0 = (0, [])"
  by (simp add: tryHandleQuery_def tryHandleCSIQuery_def tryHandleOSCQuery_def)

lemma tryHandleXTWINOPS_le: "fst (tryHandleXTWINOPS t s 0) \<le> length s"
  by (simp add: tryHandleXTWINOPS_def)

lemma tryHandleCSIQuery_le: "fst (tryHandleCSIQuery t s 0) \<le> length s"
  using tryHandleXTWINOPS_le [of t s]
  by (auto simp: tryHandleCSIQuery_def split: prod.splits)

lemma tryHandleOSCQuery_le: "fst (tryHandleOSCQuery t s 0) \<le> length s"
  using findOSCEnd_le [of s 5]
  by (auto simp: tryHandleOSCQuery_def)

lemma tryHandleQuery_le: "fst (tryHandleQuery t s 0) \<le> length s"
  using tryHandleCSIQuery_le [of t s] tryHandleOSCQuery_le [of t s]
  by (auto simp: tryHandleQuery_def split: prod.splits)

lemma handleTerminalQueries_split:
  assumes "BEL \<notin> set q" "\<not> sublist [ESC, BACKSLASH] (ESC # q)"
  shows "handleTerminalQueries t (s @ ESC # q) =
           (fst (handleTerminalQueries t s) @ fst (handleTerminalQueries t (ESC # q)),
            snd (handleTerminalQueries t s) @ snd (handleTerminalQueries t (ESC # q)))"
proof (induction "length s" arbitrary: s rule: less_induct)
  case less
  show ?case
  proof (cases s)
    case Nil
    then show ?thesis by (simp add: handleTerminalQueries_Nil)
  next
    case (Cons x xs)
    show ?thesis
    proof (cases "x = ESC")
      case False
      have "handleTerminalQueries t (x # xs @ ESC # q) =
              (x # fst (handleTerminalQueries t (xs @ ESC # q)),
               snd (handleTerminalQueries t (xs @ ESC # q)))"
        using False by (intro handleTerminalQueries_plain) simp
      moreover have "handleTerminalQueries t (x # xs) =
              (x # fst (handleTerminalQueries t xs), snd (handleTerminalQueries t xs))"
        using False by (intro handleTerminalQueries_plain) simp
      ultimately show ?thesis
        using less [of xs] Cons by simp
    next
      case True
      obtain k w where kw: "tryHandleQuery t (ESC # xs) 0 = (k, w)"
        by (cases "tryHandleQuery t (ESC # xs) 0")
      have ctx: "tryHandleQuery t (ESC # xs @ ESC # q) 0 = (k, w)"
        using tryHandleQuery_context [OF assms, of t ESC xs] kw by simp
      have le: "k \<le> Suc (length xs)"
        using tryHandleQuery_le [of t "ESC # xs"] kw by simp
      show ?thesis
      proof (cases "0 < k")
        case pos: True
        have ne: "xs \<noteq> []"
          using pos kw tryHandleQuery_single [of t ESC] by auto
        have d: "drop k (ESC # xs @ ESC # q) = drop k (ESC # xs) @ ESC # q"
          using le drop_append [of k "ESC # xs" "ESC # q"] by simp
        have "handleTerminalQueries t (ESC # xs @ ESC # q) =
                (fst (handleTerminalQueries t (drop k (ESC # xs) @ ESC # q)),
                 w @ snd (handleTerminalQueries t (drop k (ESC # xs) @ ESC # q)))"
          using handleTerminalQueries_skip [OF ctx pos] le ne d by simp
        moreover have "handleTerminalQueries t (ESC # xs) =
                (fst (handleTerminalQueries t (drop k (ESC # xs))),
                 w @ snd (handleTerminalQueries t (drop k (ESC # xs))))"
          using handleTerminalQueries_skip [OF kw pos le ne] .
        moreover have "length (drop k (ESC # xs)) < length s"
          using pos Cons by simp
        ultimately show ?thesis
          using less [of "drop k (ESC # xs)"] Cons True by simp
      next
        case zero: False
        then have k0: "k = 0" by simp
        have "handleTerminalQueries t (ESC # xs @ ESC # q) =
                (ESC # fst (handleTerminalQueries t (xs @ ESC # q)),
                 w @ snd (handleTerminalQueries t (xs @ ESC # q)))"
          using handleTerminalQueries_pass [of t "xs @ ESC # q" w] ctx k0 by simp
        moreover have "handleTerminalQueries t (ESC # xs) =
                (ESC # fst (handleTerminalQueries t xs), w @ snd (handleTerminalQueries t xs))"
        proof (cases "xs = []")
          case True
          then have "w = []"
            using kw tryHandleQuery_single [of t ESC] by simp
          then show ?thesis
            using True handleTerminalQueries_plain [of ESC "[]" t]
            by (simp add: handleTerminalQueries_Nil)
        next
          case False
          then show ?thesis
            using handleTerminalQueries_pass [of t xs w] kw k0 by simp
        qed
        ultimately show ?thesis
          using less [of xs] Cons True by simp
      qed
    qed
  qed
qed

section \<open>Formatting and the size of a session\<close>

lemma go_int_id: "- (2 ^ 63) \<le> x \<Longrightarrow> x < 2 ^ 63 \<Longrightarrow> go_int x = x"
  by (simp add: go_int_def)

lemma digit_char: "k < 10 \<Longrightarrow> of_char (''0123456789'' ! k) = (48 + k :: nat)"
proof -
  assume "k < 10"
  then consider "k = 0" | "k = 1" | "k = 2" | "k = 3" | "k = 4" | "k = 5" | "k = 6" | "k = 7"
    | "k = 8" | "k = 9"
    by atomize_elim arith
  then show ?thesis
    by cases simp_all
qed

lemma decimal_value_digits: "decimal_value (digits n) = n"
proof (induction n rule: digits.induct)
  case (1 n)
  show ?case
  proof (cases "n < 10")
    case True
    then show ?thesis
      by (simp add: digits.simps [of n] decimal_value_def digit_char)
  next
    case False
    have "n mod 10 < 10" by simp
    then show ?thesis
      using False "1.IH"
      by (simp add: digits.simps [of n] decimal_value_def digit_char)
  qed
qed

lemma sprint_d_value: "0 \<le> x \<Longrightarrow> int (decimal_value (sprint_d x)) = x"
  by (simp add: sprint_d_def decimal_value_digits)

text \<open>The size of a session is always in the validated range.\<close>

lemma New_size:
  "fst (New os command args opts) = Inr t \<Longrightarrow>
   0 \<le> rows t \<and> rows t \<le> 65535 \<and> 0 \<le> cols t \<and> cols t \<le> 65535"
  by (auto simp: New_def Let_def maxTerminalDimension_def split: if_splits option.splits)

lemma Resize_size:
  "0 \<le> rows t \<and> rows t \<le> 65535 \<and> 0 \<le> cols t \<and> cols t \<le> 65535 \<Longrightarrow>
   0 \<le> rows (fst (snd (Resize os t c r))) \<and> rows (fst (snd (Resize os t c r))) \<le> 65535
   \<and> 0 \<le> cols (fst (snd (Resize os t c r))) \<and> cols (fst (snd (Resize os t c r))) \<le> 65535"
  by (auto simp: Resize_def Let_def maxTerminalDimension_def split: if_splits option.splits)

section \<open>Evaluating the examples\<close>

lemma New_default: "New os_ok ''sh'' [] DefaultOptions = (Inr session0, [StartWithSize \<lparr>ws_Rows = 24, ws_Cols = 80\<rparr>])"
  by (simp add: New_def os_ok_def DefaultOptions_def session0_def maxTerminalDimension_def)

lemma screens:
  "Screenshot session_hello = ''hello'' @ [CHR 0x0A] @ ''     '' @ [CHR 0x0A]"
  "Screenshot session_blank = ''     '' @ [CHR 0x0A] @ ''     '' @ [CHR 0x0A]"
  "Screenshot session_norows = []"
  by (simp_all add: Screenshot_def vt_String_def vt10x_New_def session_hello_def
      session_blank_def session_norows_def numeral_2_eq_2 numeral_eq_Suc)

lemma Resize_norows: "fst (snd (Resize os_ok session0 80 0)) = session_norows"
  by (simp add: Resize_def maxTerminalDimension_def os_ok_def session0_def session_norows_def)

section \<open>Waiting for a stable screen\<close>

lemma first_event_Nil: "first_event late settled [] = None"
  by (simp add: first_event_def)

lemma first_event_Cons:
  "first_event late settled (k # ks) =
     (if late k then Some (Some StableTimeout)
      else if settled k then Some None
      else first_event late settled ks)"
  by (simp add: first_event_def)

lemma at_end:
  "(hist @ p # ps) ! length hist = p"
  "take (length hist) (hist @ p # ps) = hist"
  "take (Suc (length hist)) (hist @ p # ps) = hist @ [p]"
  by (simp_all add: nth_append)

lemma stableLoop_char:
  assumes "ls = (if hist = [] then [] else screen_of (last hist))"
    and "since = (if \<forall>q \<in> set hist. screen_of q = [] then None
                  else Some (p_now (last (takeWhile (\<lambda>q. screen_of q = ls) (rev hist)))))"
  shows "stableLoop dl d ls since ps =
           first_event (expired dl (hist @ ps))
             (\<lambda>k. unchanged_for d (hist @ ps) k \<and> seen_nonempty (hist @ ps) k)
             [length hist ..< length hist + length ps]"
  using assms
proof (induction ps arbitrary: hist ls since)
  case Nil
  then show ?case by (simp add: first_event_Nil)
next
  case (Cons p ps)
  let ?all = "hist @ p # ps"
  let ?n = "length hist"
  let ?run = "takeWhile (\<lambda>q. screen_of q = screen_of p) (rev hist)"
  have upt: "[?n ..< ?n + length (p # ps)] = ?n # [length (hist @ [p]) ..< length (hist @ [p]) + length ps]"
  proof -
    have "?n < ?n + length (p # ps)"
      by simp
    then have "[?n ..< ?n + length (p # ps)] = ?n # [Suc ?n ..< ?n + length (p # ps)]"
      by (rule upt_conv_Cons)
    moreover have "?n + length (p # ps) = length (hist @ [p]) + length ps" "Suc ?n = length (hist @ [p])"
      by simp_all
    ultimately show ?thesis
      by (simp only:)
  qed
  have app: "(hist @ [p]) @ ps = ?all"
    by simp
  have ex: "expired dl ?all ?n \<longleftrightarrow> \<not> p_check p < dl"
    by (simp add: expired_def at_end)
  have dw: "dwell ?all ?n = (case ?run of [] \<Rightarrow> None | q # qs \<Rightarrow> Some (p_now p - p_now (last (q # qs))))"
    unfolding dwell_def at_end by (rule refl)
  have sn: "seen_nonempty ?all ?n \<longleftrightarrow> (\<exists>q \<in> set hist. screen_of q \<noteq> []) \<or> screen_of p \<noteq> []"
    by (auto simp: seen_nonempty_def at_end)
  note step = first_event_Cons [of "expired dl ?all" _ ?n]
  show ?case
  proof (cases "p_check p < dl")
    case False
    then show ?thesis
      unfolding upt by (simp add: step ex)
  next
    case live: True
    show ?thesis
    proof (cases "screen_of p = ls")
      case differs: False
      have run: "?run = []"
        using differs Cons.prems(1) by (cases hist rule: rev_cases) auto
      have ne: "\<not> (\<forall>q \<in> set (hist @ [p]). screen_of q = [])"
        using differs Cons.prems(1) by (cases hist rule: rev_cases) auto
      have "stableLoop dl d ls since (p # ps) = stableLoop dl d (screen_of p) (Some (p_now p)) ps"
        using live differs by (simp add: screen_of_def)
      also have "\<dots> = first_event (expired dl ((hist @ [p]) @ ps))
             (\<lambda>k. unchanged_for d ((hist @ [p]) @ ps) k \<and> seen_nonempty ((hist @ [p]) @ ps) k)
             [length (hist @ [p]) ..< length (hist @ [p]) + length ps]"
        using ne run by (intro Cons.IH) auto
      finally show ?thesis
        unfolding upt app using live by (simp add: step ex unchanged_for_def dw run)
    next
      case same: True
      show ?thesis
      proof (cases "\<forall>q \<in> set hist. screen_of q = []")
        case blank: True
        have since: "since = None"
          using blank Cons.prems(2) by simp
        have lsn: "ls = []"
          using blank Cons.prems(1) by (cases hist rule: rev_cases) auto
        have "stableLoop dl d ls since (p # ps) = stableLoop dl d ls since ps"
          using live same since by (simp add: screen_of_def)
        also have "\<dots> = first_event (expired dl ((hist @ [p]) @ ps))
             (\<lambda>k. unchanged_for d ((hist @ [p]) @ ps) k \<and> seen_nonempty ((hist @ [p]) @ ps) k)
             [length (hist @ [p]) ..< length (hist @ [p]) + length ps]"
          using blank same lsn since by (intro Cons.IH) auto
        finally show ?thesis
          unfolding upt app using live blank same lsn by (simp add: step ex sn)
      next
        case seen: False
        then obtain h hs where hist: "hist = hs @ [h]"
          by (cases hist rule: rev_cases) auto
        have lsh: "screen_of h = ls"
          using Cons.prems(1) hist by simp
        obtain qs where run: "?run = h # qs"
          using hist same lsh by simp
        have since: "since = Some (p_now (last (h # qs)))"
          using seen Cons.prems(2) run same by simp
        have sn': "seen_nonempty ?all ?n"
          using seen sn by blast
        have un: "unchanged_for d ?all ?n \<longleftrightarrow> d \<le> p_now p - p_now (last (h # qs))"
          by (simp add: unchanged_for_def dw run)
        show ?thesis
        proof (cases "d \<le> p_now p - p_now (last (h # qs))")
          case True
          then show ?thesis
            unfolding upt using live same since by (simp add: step ex un sn' screen_of_def)
        next
          case False
          have ne: "\<not> (\<forall>q \<in> set (hist @ [p]). screen_of q = [])"
            using seen by auto
          have "stableLoop dl d ls since (p # ps) = stableLoop dl d ls since ps"
            using live same since False by (simp add: screen_of_def)
          also have "\<dots> = first_event (expired dl ((hist @ [p]) @ ps))
             (\<lambda>k. unchanged_for d ((hist @ [p]) @ ps) k \<and> seen_nonempty ((hist @ [p]) @ ps) k)
             [length (hist @ [p]) ..< length (hist @ [p]) + length ps]"
            using ne same since run by (intro Cons.IH) auto
          finally show ?thesis
            unfolding upt app using live False by (simp add: step ex un)
        qed
      qed
    qed
  qed
qed

lemma first_event_success:
  "first_event late settled ks = Some None \<Longrightarrow> \<exists>k \<in> set ks. settled k \<and> \<not> late k"
  by (induction ks) (auto simp: first_event_Nil first_event_Cons split: if_splits)

lemma first_event_returns:
  "\<exists>k \<in> set ks. late k \<Longrightarrow> first_event late settled ks \<noteq> None"
  by (induction ks) (auto simp: first_event_Nil first_event_Cons)

lemma eval_hello: "WaitForStable 0 1000 100 polls_hello = Some None"
  by (simp add: WaitForStable_def polls_hello_def poll_at_def screens)

lemma eval_flicker: "WaitForStable 0 120 100 polls_flicker = Some (Some StableTimeout)"
  by (simp add: WaitForStable_def polls_flicker_def poll_at_def screens)

lemma eval_norows: "WaitForStable 0 1000 100 polls_norows = Some (Some StableTimeout)"
  by (simp add: WaitForStable_def polls_norows_def poll_at_def screens)

lemma spec_norows:
  "first_event (expired (0 + 1000) polls_norows) (unchanged_for 100 polls_norows)
      [0 ..< length polls_norows] = Some None"
  by (simp add: first_event_def expired_def unchanged_for_def dwell_def polls_norows_def
      poll_at_def screen_of_def screens upt_rec)

lemma dwell_hello: "dwell polls_hello 1 = Some 50" "dwell polls_hello 2 = Some 100"
  by (simp_all add: dwell_def polls_hello_def poll_at_def screen_of_def)

lemma dwell_norows: "dwell polls_norows 2 = Some 100"
  by (simp add: dwell_def polls_norows_def poll_at_def screen_of_def)

text \<open>
  C1 (as amended): for every start time, timeout and stable duration and every run of
  polls, \<open>WaitForStable\<close> returns at the first poll at which the deadline has passed, or at
  which the snapshot text has been seen unchanged for at least \<open>stableDuration\<close> and a
  snapshot that is not empty has been seen so far; it returns the timeout error in the
  first case and success in the second (first conjunct). So it succeeds as soon as the text
  has been observed unchanged continuously for \<open>stableDuration\<close>, also when a text that is
  not empty never changes from the first poll onward, and it returns the timeout error when
  this does not happen before the deadline. A success comes from a poll before the
  deadline whose dwell time is at least \<open>stableDuration\<close> (second conjunct), so that equal
  consecutive polls with a shorter dwell time do not count. A text that has been empty at
  every poll so far is not counted as unchanged. The call returns whenever the run holds a
  poll at which the deadline has passed (third conjunct).
\<close>

theorem C1_wait_for_stable:
  "WaitForStable start timeout d ps =
     first_event (expired (start + timeout) ps)
       (\<lambda>k. unchanged_for d ps k \<and> seen_nonempty ps k) [0 ..< length ps]
   \<and> (WaitForStable start timeout d ps = Some None \<longrightarrow>
        (\<exists>k < length ps. unchanged_for d ps k \<and> \<not> expired (start + timeout) ps k))
   \<and> ((\<exists>k < length ps. expired (start + timeout) ps k) \<longrightarrow>
        WaitForStable start timeout d ps \<noteq> None)"
proof -
  have c: "WaitForStable start timeout d ps =
     first_event (expired (start + timeout) ps)
       (\<lambda>k. unchanged_for d ps k \<and> seen_nonempty ps k) [0 ..< length ps]"
    using stableLoop_char [of "[]" "[]" None "start + timeout" d ps]
    by (simp add: WaitForStable_def)
  have s: "WaitForStable start timeout d ps = Some None \<longrightarrow>
        (\<exists>k < length ps. unchanged_for d ps k \<and> \<not> expired (start + timeout) ps k)"
  proof
    assume "WaitForStable start timeout d ps = Some None"
    then have "first_event (expired (start + timeout) ps)
       (\<lambda>k. unchanged_for d ps k \<and> seen_nonempty ps k) [0 ..< length ps] = Some None"
      using c by simp
    from first_event_success [OF this]
    obtain k where "k \<in> set [0 ..< length ps]" "unchanged_for d ps k"
      "\<not> expired (start + timeout) ps k"
      by blast
    then show "\<exists>k < length ps. unchanged_for d ps k \<and> \<not> expired (start + timeout) ps k"
      by auto
  qed
  have r: "(\<exists>k < length ps. expired (start + timeout) ps k) \<longrightarrow>
        WaitForStable start timeout d ps \<noteq> None"
  proof
    assume "\<exists>k < length ps. expired (start + timeout) ps k"
    then have "\<exists>k \<in> set [0 ..< length ps]. expired (start + timeout) ps k"
      by auto
    from first_event_returns [OF this] show "WaitForStable start timeout d ps \<noteq> None"
      using c by simp
  qed
  show ?thesis
    using c s r by blast
qed

text \<open>
  An instance: \<open>hello\<close> is on the screen from the first poll and never changes; with a
  stable duration of 100 the call succeeds at the third poll, where the dwell time is 100,
  and not at the second, where two polls agree but the dwell time is 50. A screen that
  changes at every poll ends in the timeout error.
\<close>

theorem C1_witness:
  "WaitForStable 0 1000 100 polls_hello = Some None
   \<and> first_event (expired (0 + 1000) polls_hello)
        (\<lambda>k. unchanged_for 100 polls_hello k \<and> seen_nonempty polls_hello k)
        [0 ..< length polls_hello] = Some None
   \<and> dwell polls_hello 1 = Some 50 \<and> dwell polls_hello 2 = Some 100
   \<and> first_event (expired (0 + 120) polls_flicker)
        (\<lambda>k. unchanged_for 100 polls_flicker k \<and> seen_nonempty polls_flicker k)
        [0 ..< length polls_flicker] = Some (Some StableTimeout)"
  using C1_wait_for_stable [of 0 1000 100 polls_hello]
    C1_wait_for_stable [of 0 120 100 polls_flicker] eval_hello eval_flicker dwell_hello
  by simp

text \<open>
  Without the proviso on the empty text the statement fails, on a session without rows,
  whose snapshot is the empty text: the snapshot never changes, at the third poll it has
  been unchanged for the stable duration of 100 and the deadline of 1000 has not passed;
  \<open>WaitForStable\<close> returns the timeout error.
\<close>

theorem C1_empty_snapshot_counterexample:
  "fst (snd (Resize os_ok session0 80 0)) = session_norows
   \<and> Screenshot session_norows = []
   \<and> dwell polls_norows 2 = Some 100
   \<and> first_event (expired (0 + 1000) polls_norows) (unchanged_for 100 polls_norows)
        [0 ..< length polls_norows] = Some None
   \<and> WaitForStable 0 1000 100 polls_norows = Some (Some StableTimeout)"
  using Resize_norows screens(3) dwell_norows spec_norows eval_norows
  by simp

section \<open>Waiting for a text\<close>

lemma containsText_nonempty: "text \<noteq> [] \<Longrightarrow> containsText screen text \<longleftrightarrow> sublist text screen"
  by (auto simp: containsText_def)

lemma textLoop_empty:
  "textLoop dl [] ps = (if \<exists>p \<in> set ps. \<not> p_check p < dl then Some (Some (TextTimeout [])) else None)"
  by (induction ps) (auto simp: containsText_def)

lemma textLoop_char:
  "text \<noteq> [] \<Longrightarrow>
   textLoop dl text ps =
     (case find (\<lambda>p. \<not> p_check p < dl \<or> sublist text (Screenshot (p_term p))) ps of
        None \<Rightarrow> None
      | Some p \<Rightarrow> if p_check p < dl then Some None else Some (Some (TextTimeout text)))"
  by (induction ps) (auto simp: containsText_nonempty)

text \<open>
  C9: with the empty string as target, \<open>WaitForText\<close> never returns success, and returns the
  timeout error as soon as a poll is past the deadline, whatever the screens show. With a
  target that is not empty, it returns at the first poll that is past the deadline or whose
  snapshot contains the target as a substring: success when that poll is before the
  deadline, the timeout error otherwise.
\<close>

theorem C9_wait_for_text:
  "WaitForText start [] timeout ps \<noteq> Some None
   \<and> ((\<exists>p \<in> set ps. \<not> p_check p < start + timeout)
        \<longrightarrow> WaitForText start [] timeout ps = Some (Some (TextTimeout [])))
   \<and> (text \<noteq> [] \<longrightarrow>
        WaitForText start text timeout ps =
          (case find (\<lambda>p. \<not> p_check p < start + timeout
                            \<or> sublist text (Screenshot (p_term p))) ps of
             None \<Rightarrow> None
           | Some p \<Rightarrow> if p_check p < start + timeout then Some None
                       else Some (Some (TextTimeout text))))"
  by (simp add: WaitForText_def textLoop_empty textLoop_char)

theorem C9_witness:
  "WaitForText 0 [] 120 polls_flicker = Some (Some (TextTimeout []))
   \<and> WaitForText 0 ''ell'' 120 polls_flicker = Some None
   \<and> find (\<lambda>p. \<not> p_check p < 0 + 120 \<or> sublist ''ell'' (Screenshot (p_term p))) polls_flicker
        = Some (poll_at 0 session_hello)
   \<and> WaitForText 0 ''Menu'' 120 polls_flicker = Some (Some (TextTimeout ''Menu''))"
proof -
  have a: "\<exists>p \<in> set polls_flicker. \<not> p_check p < 0 + 120"
    by (simp add: polls_flicker_def poll_at_def)
  have b: "find (\<lambda>p. \<not> p_check p < 0 + 120 \<or> sublist ''ell'' (Screenshot (p_term p))) polls_flicker
        = Some (poll_at 0 session_hello)"
    by (simp add: polls_flicker_def poll_at_def screens sublist_Cons_right)
  have c: "find (\<lambda>p. \<not> p_check p < 0 + 120 \<or> sublist ''Menu'' (Screenshot (p_term p))) polls_flicker
        = Some (poll_at 150 session_blank)"
    by (simp add: polls_flicker_def poll_at_def screens sublist_Cons_right)
  show ?thesis
    using a b c C9_wait_for_text [of 0 120 polls_flicker "''ell''"]
      C9_wait_for_text [of 0 120 polls_flicker "''Menu''"]
    by (simp add: poll_at_def)
qed

section \<open>Snapshots\<close>

text \<open>
  C2: the snapshot is the rendered text of the model and nothing else: \<open>ScreenshotWithCursor\<close>
  returns the same string whatever the cursor row, column and visibility of the model are,
  so the cursor cannot be read from it.
\<close>

theorem C2_snapshot_omits_cursor:
  "ScreenshotWithCursor t = vt_String (vt t)
   \<and> ScreenshotWithCursor
        (t\<lparr>vt := (vt t)\<lparr>vt_cur_row := r, vt_cur_col := c, vt_cur_visible := b\<rparr>\<rparr>)
      = ScreenshotWithCursor t"
  by (simp add: ScreenshotWithCursor_def vt_String_def)

section \<open>Creating and resizing\<close>

text \<open>
  C4 (as amended): with rows and cols in \<open>[0, 65535]\<close>, creation succeeds when the operating
  system starts the child, and resize succeeds when the operating system's sizing call
  succeeds; with rows or cols above 65535, creation and resize fail with the error for
  rows or for cols, the session is unchanged and no call to the operating system is made.
\<close>

theorem C4_dimension_validation:
  "(0 \<le> Rows opts \<and> Rows opts \<le> 65535 \<and> 0 \<le> Cols opts \<and> Cols opts \<le> 65535
      \<and> os_start os command args
            \<lparr>ws_Rows = word_of_int (if Rows opts = 0 then 24 else Rows opts),
             ws_Cols = word_of_int (if Cols opts = 0 then 80 else Cols opts)\<rparr> = None
     \<longrightarrow> fst (New os command args opts)
           = Inr \<lparr>vt = vt10x_New (if Cols opts = 0 then 80 else Cols opts)
                         (if Rows opts = 0 then 24 else Rows opts) PtyFile,
                  rows = (if Rows opts = 0 then 24 else Rows opts),
                  cols = (if Cols opts = 0 then 80 else Cols opts)\<rparr>)
   \<and> (0 \<le> r \<and> r \<le> 65535 \<and> 0 \<le> c \<and> c \<le> 65535
      \<and> os_setsize os \<lparr>ws_Rows = word_of_int r, ws_Cols = word_of_int c\<rparr> = None
     \<longrightarrow> fst (Resize os t c r) = None)
   \<and> (65535 < Rows opts \<or> 65535 < Cols opts
     \<longrightarrow> New os command args opts \<in> {(Inl RowsOutOfRange, []), (Inl ColsOutOfRange, [])})
   \<and> (65535 < r \<or> 65535 < c
     \<longrightarrow> Resize os t c r \<in> {(Some RowsOutOfRange, t, []), (Some ColsOutOfRange, t, [])})"
  by (auto simp: New_def Resize_def maxTerminalDimension_def Let_def)

theorem C4_witness:
  "fst (New os_ok ''sh'' [] \<lparr>Rows = 0, Cols = 65535, Env = []\<rparr>)
      = Inr \<lparr>vt = vt10x_New 65535 24 PtyFile, rows = 24, cols = 65535\<rparr>
   \<and> fst (Resize os_ok session0 0 65535) = None
   \<and> New os_closed ''sh'' [] \<lparr>Rows = 24, Cols = 65536, Env = []\<rparr> = (Inl ColsOutOfRange, [])
   \<and> Resize os_closed session0 80 65536 = (Some RowsOutOfRange, session0, [])"
proof -
  have a: "New os_closed ''sh'' [] \<lparr>Rows = 24, Cols = 65536, Env = []\<rparr> \<noteq> (Inl RowsOutOfRange, [])"
    by (simp add: New_def maxTerminalDimension_def)
  have b: "Resize os_closed session0 80 65536 \<noteq> (Some ColsOutOfRange, session0, [])"
    by (simp add: Resize_def maxTerminalDimension_def)
  show ?thesis
    using a b
      C4_dimension_validation [of "\<lparr>Rows = 0, Cols = 65535, Env = []\<rparr>" os_ok "''sh''" "[]" 65535 0 session0]
      C4_dimension_validation [of "\<lparr>Rows = 24, Cols = 65536, Env = []\<rparr>" os_closed "''sh''" "[]" 65536 80 session0]
    by (simp add: os_ok_def)
qed

text \<open>
  Without the proviso on the sizing call the statement fails: 24 rows and 80 columns are in
  range, the operating system refuses the call, and \<open>Resize\<close> returns the error of
  \<open>pty.Setsize\<close>.
\<close>

theorem C4_resize_can_fail_counterexample:
  "(0::int) \<le> 24 \<and> (24::int) \<le> 65535 \<and> (0::int) \<le> 80 \<and> (80::int) \<le> 65535
   \<and> Resize os_closed session0 80 24
        = (Some (OsError ''bad file descriptor''), session0,
           [Setsize \<lparr>ws_Rows = 24, ws_Cols = 80\<rparr>])"
  by (simp add: Resize_def maxTerminalDimension_def os_closed_def)

text \<open>
  C8: with cols and rows in \<open>[0, 65535]\<close> and a sizing call that succeeds, \<open>Resize\<close> succeeds,
  records the new rows and cols, and installs a freshly constructed model of the new size,
  so that the snapshot is a blank grid of \<open>rows\<close> lines of \<open>cols\<close> spaces whatever the screen
  showed before.
\<close>

theorem C8_resize_fresh_model:
  assumes "0 \<le> r" "r \<le> 65535" "0 \<le> c" "c \<le> 65535"
    and "os_setsize os \<lparr>ws_Rows = word_of_int r, ws_Cols = word_of_int c\<rparr> = None"
  shows "fst (Resize os t c r) = None
    \<and> rows (fst (snd (Resize os t c r))) = r
    \<and> cols (fst (snd (Resize os t c r))) = c
    \<and> vt (fst (snd (Resize os t c r))) = vt10x_New c r Discard
    \<and> Screenshot (fst (snd (Resize os t c r)))
        = concat (replicate (nat r) (replicate (nat c) CHR '' '' @ [CHR 0x0A]))"
proof -
  have "map (\<lambda>l. l @ [CHR 0x0A]) (replicate (nat r) (replicate (nat c) CHR '' ''))
          = replicate (nat r) (replicate (nat c) CHR '' '' @ [CHR 0x0A])"
    by simp
  then show ?thesis
    using assms
    by (simp add: Resize_def maxTerminalDimension_def Screenshot_def vt_String_def vt10x_New_def)
qed

theorem C8_witness:
  "Screenshot session_hello = ''hello'' @ [CHR 0x0A] @ ''     '' @ [CHR 0x0A]
   \<and> fst (Resize os_ok session_hello 132 43) = None
   \<and> rows (fst (snd (Resize os_ok session_hello 132 43))) = 43
   \<and> cols (fst (snd (Resize os_ok session_hello 132 43))) = 132
   \<and> Screenshot (fst (snd (Resize os_ok session_hello 132 43)))
        = concat (replicate 43 (replicate 132 CHR '' '' @ [CHR 0x0A]))"
proof -
  have "os_setsize os_ok \<lparr>ws_Rows = word_of_int 43, ws_Cols = word_of_int 132\<rparr> = None"
    by (simp add: os_ok_def)
  from C8_resize_fresh_model [OF _ _ _ _ this, of session_hello]
  show ?thesis
    by (simp add: session_hello_def Screenshot_def vt_String_def vt10x_New_def)
qed

text \<open>
  C10: when \<open>Resize\<close> returns an error, from the validation of the dimensions or from the
  sizing call, the session is unchanged: rows, cols and the model are the previous ones.
\<close>

theorem C10_resize_error_keeps_state:
  "fst (Resize os t c r) \<noteq> None \<Longrightarrow> fst (snd (Resize os t c r)) = t"
  by (auto simp: Resize_def Let_def split: if_splits option.splits)

theorem C10_witness:
  "fst (Resize os_ok session_hello 80 70000) \<noteq> None
   \<and> fst (snd (Resize os_ok session_hello 80 70000)) = session_hello
   \<and> fst (Resize os_closed session_hello 80 24) \<noteq> None
   \<and> fst (snd (Resize os_closed session_hello 80 24)) = session_hello"
proof -
  have a: "fst (Resize os_ok session_hello 80 70000) \<noteq> None"
    by (simp add: Resize_def maxTerminalDimension_def)
  have b: "fst (Resize os_closed session_hello 80 24) \<noteq> None"
    by (simp add: Resize_def maxTerminalDimension_def os_closed_def)
  show ?thesis
    using a b C10_resize_error_keeps_state [OF a] C10_resize_error_keeps_state [OF b]
    by simp
qed

section \<open>Device status reports\<close>

lemma Resize_writer:
  "fst (Resize os t c r) = None \<Longrightarrow> vt_writer (vt (fst (snd (Resize os t c r)))) = Discard"
  by (auto simp: Resize_def Let_def vt10x_New_def split: if_splits option.splits)

lemma dsr_not_intercepted:
  assumes "x \<noteq> CHR ''c''" "x \<noteq> CHR ''0''" "x \<noteq> CHR ''>''" "x \<noteq> CHR ''1''" "x \<noteq> ESC"
    and "y \<noteq> ESC"
  shows "handleTerminalQueries t (ESC # CHR ''['' # x # y # rest)
           = (ESC # CHR ''['' # x # y # fst (handleTerminalQueries t rest),
              snd (handleTerminalQueries t rest))"
proof -
  have q: "tryHandleQuery t (ESC # CHR ''['' # x # y # rest) 0 = (0, [])"
    using assms
    by (simp add: tryHandleQuery_def tryHandleCSIQuery_def tryHandleXTWINOPS_def
        tryHandleOSCQuery_def)
  have e: "CHR ''['' \<noteq> ESC"
    by (simp add: ESC_def)
  show ?thesis
    using assms e handleTerminalQueries_plain_prefix [where pre = "[CHR ''['', x, y]" and suf = rest and t = t]
    by (simp add: handleTerminalQueries_pass [OF q])
qed

text \<open>
  C3: the interceptor passes the device status reports \<open>ESC [ 6 n\<close> and \<open>ESC [ 5 n\<close> through
  and writes nothing. The model installed by \<open>New\<close> has the PTY as its writer; the model
  installed by a successful \<open>Resize\<close> has not: its writer discards the answers.
\<close>

theorem C3_resize_drops_writer:
  "fst (New os_ok ''sh'' [] DefaultOptions) = Inr session0
   \<and> vt_writer (vt session0) = PtyFile
   \<and> fst (Resize os_ok session0 80 24) = None
   \<and> vt_writer (vt (fst (snd (Resize os_ok session0 80 24)))) = Discard
   \<and> handleTerminalQueries (fst (snd (Resize os_ok session0 80 24))) (ESC # ''[6n'')
       = (ESC # ''[6n'', [])
   \<and> handleTerminalQueries (fst (snd (Resize os_ok session0 80 24))) (ESC # ''[5n'')
       = (ESC # ''[5n'', [])"
proof -
  have r: "fst (Resize os_ok session0 80 24) = None"
    by (simp add: Resize_def maxTerminalDimension_def os_ok_def)
  have d: "\<And>t. handleTerminalQueries t (ESC # ''[6n'') = (ESC # ''[6n'', [])"
    "\<And>t. handleTerminalQueries t (ESC # ''[5n'') = (ESC # ''[5n'', [])"
    using dsr_not_intercepted [where x = "CHR ''6''" and y = "CHR ''n''" and rest = "[]"]
      dsr_not_intercepted [where x = "CHR ''5''" and y = "CHR ''n''" and rest = "[]"]
    by (simp_all add: handleTerminalQueries_Nil ESC_def)
  show ?thesis
    using r Resize_writer [OF r] d
    by (simp add: New_default session0_def vt10x_New_def)
qed

section \<open>Primary Device Attributes\<close>

text \<open>
  C5: a buffer that is exactly one Primary Device Attributes query, \<open>ESC [ c\<close> or
  \<open>ESC [ 0 c\<close>, is filtered to the empty buffer, and exactly one string is written to the
  PTY: \<open>ESC [ ? 6 2 ; 4 c\<close>.
\<close>

theorem C5_da1_alone:
  "handleTerminalQueries t [ESC, CHR ''['', CHR ''c''] = ([], [ESC # ''[?62;4c''])
   \<and> handleTerminalQueries t [ESC, CHR ''['', CHR ''0'', CHR ''c''] = ([], [ESC # ''[?62;4c''])"
proof
  have q: "tryHandleQuery t (ESC # ''[c'') 0 = (3, [respondToDA1])"
    by (simp add: tryHandleQuery_def tryHandleCSIQuery_def)
  show "handleTerminalQueries t [ESC, CHR ''['', CHR ''c''] = ([], [ESC # ''[?62;4c''])"
    using handleTerminalQueries_skip [OF q]
    by (simp add: handleTerminalQueries_Nil respondToDA1_def)
  have q': "tryHandleQuery t (ESC # ''[0c'') 0 = (4, [respondToDA1])"
    by (simp add: tryHandleQuery_def tryHandleCSIQuery_def)
  show "handleTerminalQueries t [ESC, CHR ''['', CHR ''0'', CHR ''c''] = ([], [ESC # ''[?62;4c''])"
    using handleTerminalQueries_skip [OF q']
    by (simp add: handleTerminalQueries_Nil respondToDA1_def)
qed

section \<open>Colour queries left open\<close>

text \<open>
  A match that starts before an escape character reaches it only when it is a colour query
  whose terminator lies behind that escape character. So when the bytes before an escape
  character hold no colour query left open, the scan of the buffer is the scan of those
  bytes followed by the scan of the bytes from the escape character on. When they hold
  one, and a terminator follows, the first such colour query is matched up to the first
  terminator that follows, and what lies between is skipped.
\<close>

lemma osc_terminated_Cons:
  "osc_terminated (x # xs) \<longleftrightarrow> x = BEL \<or> (x = ESC \<and> xs \<noteq> [] \<and> hd xs = BACKSLASH) \<or> osc_terminated xs"
  by (cases xs) (auto simp: osc_terminated_def sublist_Cons_right)

lemma osc_terminated_Nil: "\<not> osc_terminated []"
  by (simp add: osc_terminated_def)

lemma findOSCEnd_found_append:
  "osc_terminated (drop j s) \<Longrightarrow> findOSCEnd (s @ u) j = findOSCEnd s j"
proof (induction s j rule: findOSCEnd.induct)
  case (1 data i)
  show ?case
  proof (cases "i < length data")
    case False
    then show ?thesis
      using "1.prems" by (simp add: osc_terminated_Nil)
  next
    case True
    then have d: "drop i data = data ! i # drop (Suc i) data"
      by (simp add: Cons_nth_drop_Suc)
    have n: "(data @ u) ! i = data ! i"
      using True by (simp add: nth_append)
    show ?thesis
    proof (cases "data ! i = BEL")
      case True
      with \<open>i < length data\<close> n show ?thesis
        by (simp add: findOSCEnd.simps [of "data @ u" i] findOSCEnd.simps [of data i])
    next
      case nb: False
      show ?thesis
      proof (cases "i + 1 < length data")
        case inside: True
        then have n1: "(data @ u) ! (i + 1) = data ! (i + 1)"
          by (simp add: nth_append)
        have h: "hd (drop (Suc i) data) = data ! (i + 1)" "drop (Suc i) data \<noteq> []"
          using inside by (simp_all add: hd_drop_conv_nth)
        show ?thesis
        proof (cases "data ! i = ESC \<and> data ! (i + 1) = BACKSLASH")
          case True
          then show ?thesis
            using \<open>i < length data\<close> inside n n1 nb
            by (simp add: findOSCEnd.simps [of "data @ u" i] findOSCEnd.simps [of data i])
        next
          case False
          then have "osc_terminated (drop (i + 1) data)"
            using "1.prems" d nb h by (auto simp: osc_terminated_Cons)
          then have "findOSCEnd (data @ u) (i + 1) = findOSCEnd data (i + 1)"
            using "1.IH" \<open>i < length data\<close> nb False inside by auto
          then show ?thesis
            using \<open>i < length data\<close> inside n n1 nb False
            by (auto simp: findOSCEnd.simps [of "data @ u" i] findOSCEnd.simps [of data i])
        qed
      next
        case False
        then have "drop (Suc i) data = []"
          by simp
        then have "\<not> osc_terminated (drop i data)"
          using d nb by (simp add: osc_terminated_Cons osc_terminated_Nil)
        then show ?thesis
          using "1.prems" by simp
      qed
    qed
  qed
qed

lemma open_osc_append: "open_osc s \<Longrightarrow> open_osc (a @ s)"
  by (induction a) simp_all

lemma open_osc_suffix: "suffix s s0 \<Longrightarrow> open_osc s \<Longrightarrow> open_osc s0"
  by (auto simp: suffix_def open_osc_append)

lemma tryHandleOSCQuery_same_end:
  "4 < length s \<Longrightarrow> findOSCEnd (s @ u) 5 = findOSCEnd s 5 \<Longrightarrow>
   tryHandleOSCQuery t (s @ u) 0 = tryHandleOSCQuery t s 0"
  by (simp add: tryHandleOSCQuery_def nth_context)

lemma tryHandleOSCQuery_no_prefix:
  "4 < length s \<Longrightarrow>
   \<not> (s ! 1 = CHR '']'' \<and> s ! 2 = CHR ''1'' \<and> (s ! 3 = CHR ''0'' \<or> s ! 3 = CHR ''1'')
       \<and> s ! 4 = CHR '';'') \<Longrightarrow>
   tryHandleOSCQuery t (s @ u) 0 = tryHandleOSCQuery t s 0"
  by (auto simp: tryHandleOSCQuery_def nth_context numeral_2_eq_2)

lemma tryHandleQuery_closed:
  assumes "\<not> open_osc (ESC # xs)"
  shows "tryHandleQuery t ((ESC # xs) @ ESC # q) 0 = tryHandleQuery t (ESC # xs) 0"
proof (cases "4 < length (ESC # xs)")
  case True
  then obtain a b c d ys where xs: "xs = a # b # c # d # ys"
    by (cases xs; cases "tl xs"; cases "tl (tl xs)"; cases "tl (tl (tl xs))") auto
  have o: "tryHandleOSCQuery t ((ESC # xs) @ ESC # q) 0 = tryHandleOSCQuery t (ESC # xs) 0"
  proof (cases "a = CHR '']'' \<and> b = CHR ''1'' \<and> (c = CHR ''0'' \<or> c = CHR ''1'') \<and> d = CHR '';''")
    case True
    then have "osc_terminated (drop 5 (ESC # xs))"
      using assms xs by auto
    then have "findOSCEnd ((ESC # xs) @ ESC # q) 5 = findOSCEnd (ESC # xs) 5"
      by (rule findOSCEnd_found_append)
    then show ?thesis
      using \<open>4 < length (ESC # xs)\<close> by (intro tryHandleOSCQuery_same_end)
  next
    case False
    then show ?thesis
      using \<open>4 < length (ESC # xs)\<close> xs by (intro tryHandleOSCQuery_no_prefix) auto
  qed
  show ?thesis
    unfolding tryHandleQuery_def tryHandleCSIQuery_long [OF True] o
    by (rule refl)
next
  case False
  then consider "xs = []" | a where "xs = [a]" | a b where "xs = [a, b]"
    | a b c where "xs = [a, b, c]"
    by (cases xs; cases "tl xs"; cases "tl (tl xs)"; cases "tl (tl (tl xs))") auto
  then show ?thesis
    by cases
      (simp_all add: tryHandleQuery_def tryHandleCSIQuery_def tryHandleXTWINOPS_def
        tryHandleOSCQuery_def ESC_def)
qed

lemma handleTerminalQueries_split_general:
  assumes ctx: "\<And>xs. suffix (ESC # xs) s0 \<Longrightarrow>
      tryHandleQuery t ((ESC # xs) @ ESC # q) 0 = tryHandleQuery t (ESC # xs) 0"
  shows "suffix s s0 \<Longrightarrow>
         handleTerminalQueries t (s @ ESC # q) =
           (fst (handleTerminalQueries t s) @ fst (handleTerminalQueries t (ESC # q)),
            snd (handleTerminalQueries t s) @ snd (handleTerminalQueries t (ESC # q)))"
proof (induction "length s" arbitrary: s rule: less_induct)
  case less
  show ?case
  proof (cases s)
    case Nil
    then show ?thesis by (simp add: handleTerminalQueries_Nil)
  next
    case (Cons x xs)
    have sxs: "suffix xs s0"
      using less.prems Cons by (auto dest: suffix_ConsD)
    show ?thesis
    proof (cases "x = ESC")
      case False
      have "handleTerminalQueries t (x # xs @ ESC # q) =
              (x # fst (handleTerminalQueries t (xs @ ESC # q)),
               snd (handleTerminalQueries t (xs @ ESC # q)))"
        using False by (intro handleTerminalQueries_plain) simp
      moreover have "handleTerminalQueries t (x # xs) =
              (x # fst (handleTerminalQueries t xs), snd (handleTerminalQueries t xs))"
        using False by (intro handleTerminalQueries_plain) simp
      ultimately show ?thesis
        using less.hyps [of xs] sxs Cons by simp
    next
      case True
      obtain k w where kw: "tryHandleQuery t (ESC # xs) 0 = (k, w)"
        by (cases "tryHandleQuery t (ESC # xs) 0")
      have "suffix (ESC # xs) s0"
        using less.prems Cons True by simp
      then have ctx': "tryHandleQuery t (ESC # xs @ ESC # q) 0 = (k, w)"
        using ctx [of xs] kw by simp
      have le: "k \<le> Suc (length xs)"
        using tryHandleQuery_le [of t "ESC # xs"] kw by simp
      show ?thesis
      proof (cases "0 < k")
        case pos: True
        have ne: "xs \<noteq> []"
          using pos kw tryHandleQuery_single [of t ESC] by auto
        have d: "drop k (ESC # xs @ ESC # q) = drop k (ESC # xs) @ ESC # q"
          using le drop_append [of k "ESC # xs" "ESC # q"] by simp
        have sd: "suffix (drop k (ESC # xs)) s0"
          using less.prems Cons True suffix_drop [of k "ESC # xs"] suffix_order.trans by blast
        have "handleTerminalQueries t (ESC # xs @ ESC # q) =
                (fst (handleTerminalQueries t (drop k (ESC # xs) @ ESC # q)),
                 w @ snd (handleTerminalQueries t (drop k (ESC # xs) @ ESC # q)))"
          using handleTerminalQueries_skip [OF ctx' pos] le ne d by simp
        moreover have "handleTerminalQueries t (ESC # xs) =
                (fst (handleTerminalQueries t (drop k (ESC # xs))),
                 w @ snd (handleTerminalQueries t (drop k (ESC # xs))))"
          using handleTerminalQueries_skip [OF kw pos le ne] .
        moreover have "length (drop k (ESC # xs)) < length s"
          using pos Cons by simp
        ultimately show ?thesis
          using less.hyps [of "drop k (ESC # xs)"] sd Cons True by simp
      next
        case zero: False
        then have k0: "k = 0" by simp
        have "handleTerminalQueries t (ESC # xs @ ESC # q) =
                (ESC # fst (handleTerminalQueries t (xs @ ESC # q)),
                 w @ snd (handleTerminalQueries t (xs @ ESC # q)))"
          using handleTerminalQueries_pass [of t "xs @ ESC # q" w] ctx' k0 by simp
        moreover have "handleTerminalQueries t (ESC # xs) =
                (ESC # fst (handleTerminalQueries t xs), w @ snd (handleTerminalQueries t xs))"
        proof (cases "xs = []")
          case True
          then have "w = []"
            using kw tryHandleQuery_single [of t ESC] by simp
          then show ?thesis
            using True handleTerminalQueries_plain [of ESC "[]" t]
            by (simp add: handleTerminalQueries_Nil)
        next
          case False
          then show ?thesis
            using handleTerminalQueries_pass [of t xs w] kw k0 by simp
        qed
        ultimately show ?thesis
          using less.hyps [of xs] sxs Cons True by simp
      qed
    qed
  qed
qed

lemma handleTerminalQueries_split_closed:
  assumes "\<not> open_osc s"
  shows "handleTerminalQueries t (s @ ESC # q) =
           (fst (handleTerminalQueries t s) @ fst (handleTerminalQueries t (ESC # q)),
            snd (handleTerminalQueries t s) @ snd (handleTerminalQueries t (ESC # q)))"
proof (rule handleTerminalQueries_split_general [of s])
  fix xs
  assume "suffix (ESC # xs) s"
  then have "\<not> open_osc (ESC # xs)"
    using assms open_osc_suffix by blast
  then show "tryHandleQuery t ((ESC # xs) @ ESC # q) 0 = tryHandleQuery t (ESC # xs) 0"
    by (rule tryHandleQuery_closed)
next
  show "suffix s s" by simp
qed

lemma findOSCEnd_found: "osc_terminated (drop j s) \<Longrightarrow> int j < findOSCEnd s j"
proof -
  assume t: "osc_terminated (drop j s)"
  have "findOSCEnd s j = - 1 \<Longrightarrow> \<not> osc_terminated (drop j s)"
  proof (induction s j rule: findOSCEnd.induct)
    case (1 data i)
    show ?case
    proof (cases "i < length data")
      case False
      then show ?thesis by (simp add: osc_terminated_Nil)
    next
      case True
      then have d: "drop i data = data ! i # drop (Suc i) data"
        by (simp add: Cons_nth_drop_Suc)
      have nb: "data ! i \<noteq> BEL"
        using "1.prems" True by (auto simp: findOSCEnd.simps [of data i] split: if_splits)
      have np: "\<not> (data ! i = ESC \<and> i + 1 < length data \<and> data ! (i + 1) = BACKSLASH)"
        using "1.prems" True nb by (auto simp: findOSCEnd.simps [of data i] split: if_splits)
      have "findOSCEnd data (i + 1) = - 1"
        using "1.prems" True nb np by (auto simp: findOSCEnd.simps [of data i] split: if_splits)
      then have ih: "\<not> osc_terminated (drop (i + 1) data)"
        using "1.IH" True nb np by blast
      have "\<not> (data ! i = ESC \<and> drop (Suc i) data \<noteq> [] \<and> hd (drop (Suc i) data) = BACKSLASH)"
        using np by (auto simp: hd_drop_conv_nth)
      then show ?thesis
        using d nb ih by (simp add: osc_terminated_Cons)
    qed
  qed
  then show ?thesis
    using t findOSCEnd_range [of s j] by auto
qed

lemma findOSCEnd_beyond:
  assumes "\<not> osc_terminated (drop j u)" "u \<noteq> []" "last u \<noteq> ESC" "j \<le> length u"
  shows "findOSCEnd (u @ v) j =
           (if findOSCEnd v 0 < 0 then - 1 else findOSCEnd v 0 + int (length u))"
  using assms(1,4)
proof (induction "length u - j" arbitrary: j rule: less_induct)
  case less
  show ?case
  proof (cases "j < length u")
    case False
    then have "j = length u"
      using less.prems by simp
    then show ?thesis
      using findOSCEnd_append [of u v 0] by simp
  next
    case True
    then have d: "drop j u = u ! j # drop (Suc j) u"
      by (simp add: Cons_nth_drop_Suc)
    have n: "(u @ v) ! j = u ! j"
      using True by (simp add: nth_append)
    have nb: "u ! j \<noteq> BEL" and nt: "\<not> osc_terminated (drop (Suc j) u)"
      and ne: "\<not> (u ! j = ESC \<and> drop (Suc j) u \<noteq> [] \<and> hd (drop (Suc j) u) = BACKSLASH)"
      using less.prems(1) d by (auto simp: osc_terminated_Cons)
    have np: "\<not> ((u @ v) ! j = ESC \<and> j + 1 < length (u @ v) \<and> (u @ v) ! (j + 1) = BACKSLASH)"
    proof (cases "j + 1 < length u")
      case True
      then have "(u @ v) ! (j + 1) = u ! (j + 1)" "hd (drop (Suc j) u) = u ! (j + 1)"
        "drop (Suc j) u \<noteq> []"
        by (simp_all add: nth_append hd_drop_conv_nth)
      then show ?thesis
        using ne n by auto
    next
      case False
      then have "j = length u - 1"
        using \<open>j < length u\<close> by simp
      then have "u ! j = last u"
        using assms(2) by (simp add: last_conv_nth)
      then show ?thesis
        using assms(3) n by simp
    qed
    have "findOSCEnd (u @ v) (j + 1) =
           (if findOSCEnd v 0 < 0 then - 1 else findOSCEnd v 0 + int (length u))"
      using True nt by (intro less.hyps) auto
    then show ?thesis
      using True n nb np by (auto simp: findOSCEnd.simps [of "u @ v" j])
  qed
qed

lemma not_terminated_append:
  "\<not> osc_terminated b \<Longrightarrow> \<not> osc_terminated q \<Longrightarrow> q \<noteq> [] \<Longrightarrow> hd q \<noteq> BACKSLASH \<Longrightarrow>
   \<not> osc_terminated (b @ q)"
  by (induction b) (auto simp: osc_terminated_Cons hd_append)

lemma osc_prefix_unterminated:
  "(d = CHR ''0'' \<or> d = CHR ''1'') \<Longrightarrow> \<not> osc_terminated b \<Longrightarrow>
   \<not> osc_terminated (ESC # CHR '']'' # CHR ''1'' # d # CHR '';'' # b)"
  by (auto simp: osc_terminated_Cons ESC_def BEL_def BACKSLASH_def)

lemma take4_length: "take 4 a = [p, q, r, s] \<Longrightarrow> 4 \<le> length a"
proof -
  assume "take 4 a = [p, q, r, s]"
  then have "length (take 4 a) = length [p, q, r, s]"
    by (rule arg_cong)
  then show ?thesis
    by simp
qed

lemma open_osc_decompose:
  "open_osc s \<Longrightarrow>
   \<exists>a d b. s = a @ ESC # CHR '']'' # CHR ''1'' # d # CHR '';'' # b
     \<and> (d = CHR ''0'' \<or> d = CHR ''1'') \<and> \<not> open_osc a \<and> \<not> osc_terminated b"
proof (induction s)
  case Nil
  then show ?case by simp
next
  case (Cons x xs)
  let ?head = "x = ESC \<and> (take 4 xs = '']10;'' \<or> take 4 xs = '']11;'')
      \<and> \<not> osc_terminated (drop 4 xs)"
  show ?case
  proof (cases ?head)
    case True
    then obtain d where d: "d = CHR ''0'' \<or> d = CHR ''1''"
      and t: "take 4 xs = [CHR '']'', CHR ''1'', d, CHR '';'']"
      by auto
    have "xs = take 4 xs @ drop 4 xs"
      by simp
    then have "x # xs = [] @ ESC # CHR '']'' # CHR ''1'' # d # CHR '';'' # drop 4 xs"
      using True t by simp
    then show ?thesis
      using d True by (intro exI [of _ "[]"] exI [of _ d] exI [of _ "drop 4 xs"]) simp
  next
    case False
    then have "open_osc xs"
      using Cons.prems by auto
    from Cons.IH [OF this] obtain a d b
      where xs: "xs = a @ ESC # CHR '']'' # CHR ''1'' # d # CHR '';'' # b"
        and d: "d = CHR ''0'' \<or> d = CHR ''1''" and a: "\<not> open_osc a"
        and b: "\<not> osc_terminated b"
      by blast
    have "\<not> open_osc (x # a)"
    proof
      assume "open_osc (x # a)"
      then have h: "x = ESC" "take 4 a = '']10;'' \<or> take 4 a = '']11;''"
        "\<not> osc_terminated (drop 4 a)"
        using a by auto
      have l: "4 \<le> length a"
        using h(2) by (auto dest: take4_length)
      have "take 4 xs = take 4 a" "drop 4 xs = drop 4 a @ ESC # CHR '']'' # CHR ''1'' # d # CHR '';'' # b"
        using l xs by simp_all
      moreover have "\<not> osc_terminated (drop 4 a @ ESC # CHR '']'' # CHR ''1'' # d # CHR '';'' # b)"
        using h(3) osc_prefix_unterminated [OF d b]
        by (intro not_terminated_append) (simp_all add: ESC_def BACKSLASH_def)
      ultimately show False
        using False h by simp
    qed
    then show ?thesis
      using xs d b by (intro exI [of _ "x # a"] exI [of _ d] exI [of _ b]) simp
  qed
qed

lemma colour_query_matched:
  assumes "4 < length data" "data ! 1 = CHR '']''" "data ! 2 = CHR ''1''" "data ! 3 = d"
    "d = CHR ''0'' \<or> d = CHR ''1''" "data ! 4 = CHR '';''" "0 < findOSCEnd data 5"
  shows "tryHandleQuery t data 0 = (nat (findOSCEnd data 5), [colour_response d])"
  using assms
  by (auto simp: tryHandleQuery_def tryHandleCSIQuery_def tryHandleOSCQuery_def
      colour_response_def numeral_2_eq_2)

lemma drop_length_plus: "drop (length u + n) (u @ v) = drop n v"
  by simp

lemma enclosed_query_swallowed:
  assumes d: "d = CHR ''0'' \<or> d = CHR ''1''" and b: "\<not> osc_terminated b"
    and p: "osc_terminated post"
  shows "handleTerminalQueries t
           (ESC # CHR '']'' # CHR ''1'' # d # CHR '';'' # b @ ESC # ''[14t'' @ post)
         = (fst (handleTerminalQueries t (drop (nat (findOSCEnd post 0)) post)),
            colour_response d
              # snd (handleTerminalQueries t (drop (nat (findOSCEnd post 0)) post)))"
proof -
  define u where "u = ESC # CHR '']'' # CHR ''1'' # d # CHR '';'' # b @ ESC # ''[14t''"
  let ?e = "findOSCEnd post 0"
  have e: "0 < ?e" "?e \<le> int (length post)"
    using findOSCEnd_found [of 0 post] p findOSCEnd_le [of post 0] by simp_all
  have q: "\<not> osc_terminated (ESC # ''[14t'')"
    by (simp add: osc_terminated_Cons osc_terminated_Nil ESC_def BEL_def BACKSLASH_def)
  have "\<not> osc_terminated (b @ ESC # ''[14t'')"
    using b q by (intro not_terminated_append) (simp_all add: ESC_def BACKSLASH_def)
  then have nt: "\<not> osc_terminated (drop 5 u)"
    by (simp add: u_def)
  have l: "last u \<noteq> ESC" "u \<noteq> []" "5 \<le> length u"
    by (simp_all add: u_def ESC_def)
  have f: "findOSCEnd (u @ post) 5 = ?e + int (length u)"
    using findOSCEnd_beyond [OF nt l(2) l(1) l(3), of post] e by simp
  have n: "4 < length (u @ post)" "(u @ post) ! 1 = CHR '']''" "(u @ post) ! 2 = CHR ''1''"
    "(u @ post) ! 3 = d" "(u @ post) ! 4 = CHR '';''"
    by (simp_all add: u_def)
  have "0 < findOSCEnd (u @ post) 5"
    using f e by simp
  from colour_query_matched [OF n(1-4) d n(5) this]
  have k: "tryHandleQuery t (u @ post) 0 = (length u + nat ?e, [colour_response d])"
    using f e by (simp add: nat_add_distrib)
  have c: "u @ post = ESC # (tl u @ post)"
    by (simp add: u_def)
  have k': "tryHandleQuery t (ESC # (tl u @ post)) 0 = (length u + nat ?e, [colour_response d])"
    using k c by simp
  have le: "length u + nat ?e \<le> Suc (length (tl u @ post))"
    using e l by simp
  have ne: "tl u @ post \<noteq> []"
    by (simp add: u_def)
  have "handleTerminalQueries t (ESC # (tl u @ post))
          = (fst (handleTerminalQueries t (drop (length u + nat ?e) (ESC # (tl u @ post)))),
             [colour_response d]
               @ snd (handleTerminalQueries t (drop (length u + nat ?e) (ESC # (tl u @ post)))))"
    using l by (intro handleTerminalQueries_skip [OF k' _ le ne]) simp
  then have "handleTerminalQueries t (u @ post)
          = (fst (handleTerminalQueries t (drop (nat ?e) post)),
             [colour_response d] @ snd (handleTerminalQueries t (drop (nat ?e) post)))"
    by (simp only: c [symmetric] drop_length_plus)
  then show ?thesis
    by (simp add: u_def)
qed

lemma open_osc_iff:
  "open_osc s \<longleftrightarrow>
     (\<exists>a d b. s = a @ ESC # CHR '']'' # CHR ''1'' # d # CHR '';'' # b
        \<and> (d = CHR ''0'' \<or> d = CHR ''1'') \<and> \<not> osc_terminated b)"
proof
  assume "open_osc s"
  then show "\<exists>a d b. s = a @ ESC # CHR '']'' # CHR ''1'' # d # CHR '';'' # b
        \<and> (d = CHR ''0'' \<or> d = CHR ''1'') \<and> \<not> osc_terminated b"
    using open_osc_decompose by blast
next
  assume "\<exists>a d b. s = a @ ESC # CHR '']'' # CHR ''1'' # d # CHR '';'' # b
        \<and> (d = CHR ''0'' \<or> d = CHR ''1'') \<and> \<not> osc_terminated b"
  then obtain a d b where s: "s = a @ ESC # CHR '']'' # CHR ''1'' # d # CHR '';'' # b"
    and d: "d = CHR ''0'' \<or> d = CHR ''1''" and b: "\<not> osc_terminated b"
    by blast
  have "open_osc (ESC # CHR '']'' # CHR ''1'' # d # CHR '';'' # b)"
    using d b by auto
  then show "open_osc s"
    unfolding s by (rule open_osc_append)
qed

section \<open>Window size in pixels\<close>

text \<open>
  C6 (as amended): for a session whose rows and cols are in the validated range and a
  buffer that holds the query \<open>ESC [ 1 4 t\<close> after the bytes \<open>pre\<close> and before the bytes \<open>post\<close>:
  unless \<open>pre\<close> holds a colour query left open and \<open>post\<close> holds a terminator, the query is
  removed from the output, which is the filtered \<open>pre\<close> followed by the filtered \<open>post\<close>, and
  \<open>ESC [ 4 ; H ; W t\<close> is written for it, after the writes of \<open>pre\<close> and before those of
  \<open>post\<close>, with \<open>H\<close> and \<open>W\<close> the decimal numbers \<open>rows * 16\<close> and \<open>cols * 8\<close> (first conjunct).
  In the excepted case the query lies inside a colour query: \<open>pre\<close> is some bytes \<open>a\<close>, the
  prefix \<open>ESC ] 1 d ;\<close> and bytes \<open>b\<close> without terminator, the interceptor skips from that
  prefix to the first terminator in \<open>post\<close>, the query included, and what is written there
  is the colour response (second conjunct). When \<open>pre\<close> holds no escape character the
  output is \<open>pre\<close> followed by the filtered \<open>post\<close> (third conjunct); whenever the scan stands
  at the query, the query is skipped and the response written (fourth conjunct); and with
  24 rows and 80 columns and the query alone, the output is empty and the only write is
  \<open>ESC [ 4 ; 3 8 4 ; 6 4 0 t\<close> (fifth conjunct).
\<close>

theorem C6_window_size_pixels:
  assumes "0 \<le> rows t" "rows t \<le> 65535" "0 \<le> cols t" "cols t \<le> 65535"
  shows "(\<not> (open_osc pre \<and> osc_terminated post) \<longrightarrow>
         handleTerminalQueries t (pre @ ESC # ''[14t'' @ post)
           = (fst (handleTerminalQueries t pre) @ fst (handleTerminalQueries t post),
              snd (handleTerminalQueries t pre)
                @ (ESC # ''[4;'' @ sprint_d (rows t * 16) @ '';'' @ sprint_d (cols t * 8) @ ''t'')
                # snd (handleTerminalQueries t post)))
    \<and> (open_osc pre \<and> osc_terminated post \<longrightarrow>
         (\<exists>a d b. pre = a @ ESC # CHR '']'' # CHR ''1'' # d # CHR '';'' # b
            \<and> (d = CHR ''0'' \<or> d = CHR ''1'') \<and> \<not> open_osc a \<and> \<not> osc_terminated b
            \<and> handleTerminalQueries t (pre @ ESC # ''[14t'' @ post)
                = (fst (handleTerminalQueries t a)
                     @ fst (handleTerminalQueries t (drop (nat (findOSCEnd post 0)) post)),
                   snd (handleTerminalQueries t a)
                     @ colour_response d
                     # snd (handleTerminalQueries t (drop (nat (findOSCEnd post 0)) post)))))
    \<and> (ESC \<notin> set pre \<longrightarrow>
         handleTerminalQueries t (pre @ ESC # ''[14t'' @ post)
           = (pre @ fst (handleTerminalQueries t post),
              (ESC # ''[4;'' @ sprint_d (rows t * 16) @ '';'' @ sprint_d (cols t * 8) @ ''t'')
                # snd (handleTerminalQueries t post)))
    \<and> handleLoop t (pre @ ESC # ''[14t'' @ post) (length pre) r w
           = (r @ fst (handleTerminalQueries t post),
              w @ (ESC # ''[4;'' @ sprint_d (rows t * 16) @ '';'' @ sprint_d (cols t * 8) @ ''t'')
                # snd (handleTerminalQueries t post))
    \<and> (rows t = 24 \<and> cols t = 80 \<longrightarrow>
          handleTerminalQueries t (ESC # ''[14t'') = ([], [ESC # ''[4;384;640t'']))"
proof -
  let ?resp = "ESC # ''[4;'' @ sprint_d (rows t * 16) @ '';'' @ sprint_d (cols t * 8) @ ''t''"
  have r: "respondToWindowSizePixels t = ?resp"
    using assms by (simp add: respondToWindowSizePixels_def go_int_id)
  have q: "\<And>post. tryHandleQuery t (ESC # ''[14t'' @ post) 0 = (5, [respondToWindowSizePixels t])"
    by (simp add: tryHandleQuery_def tryHandleCSIQuery_def tryHandleXTWINOPS_def)
  have h: "\<And>post. handleTerminalQueries t (ESC # ''[14t'' @ post)
             = (fst (handleTerminalQueries t post), ?resp # snd (handleTerminalQueries t post))"
    using handleTerminalQueries_skip [OF q] by (simp add: r)
  have a: "handleLoop t (pre @ ESC # ''[14t'' @ post) (length pre) r w
             = (r @ fst (handleTerminalQueries t post),
                w @ ?resp # snd (handleTerminalQueries t post))"
    using handleLoop_suffix [of t pre "ESC # ''[14t'' @ post" r w] h [of post] by simp
  have b: "ESC \<notin> set pre \<longrightarrow> handleTerminalQueries t (pre @ ESC # ''[14t'' @ post)
             = (pre @ fst (handleTerminalQueries t post), ?resp # snd (handleTerminalQueries t post))"
    using handleTerminalQueries_plain_prefix [of pre t "ESC # ''[14t'' @ post"] h [of post]
    by simp
  have s: "\<not> (open_osc pre \<and> osc_terminated post) \<longrightarrow>
         handleTerminalQueries t (pre @ ESC # ''[14t'' @ post)
           = (fst (handleTerminalQueries t pre) @ fst (handleTerminalQueries t post),
              snd (handleTerminalQueries t pre) @ ?resp # snd (handleTerminalQueries t post))"
  proof
    assume n: "\<not> (open_osc pre \<and> osc_terminated post)"
    have "handleTerminalQueries t (pre @ ESC # ''[14t'' @ post)
           = (fst (handleTerminalQueries t pre)
                @ fst (handleTerminalQueries t (ESC # ''[14t'' @ post)),
              snd (handleTerminalQueries t pre)
                @ snd (handleTerminalQueries t (ESC # ''[14t'' @ post)))"
    proof (cases "open_osc pre")
      case False
      then show ?thesis
        by (rule handleTerminalQueries_split_closed)
    next
      case True
      then have p: "BEL \<notin> set post" "\<not> sublist [ESC, BACKSLASH] post"
        using n by (simp_all add: osc_terminated_def)
      have nb: "BEL \<notin> set (''[14t'' @ post)"
        using p by (simp add: BEL_def)
      have ns: "\<not> sublist [ESC, BACKSLASH] (ESC # ''[14t'' @ post)"
        using p by (simp add: sublist_Cons_right ESC_def BACKSLASH_def)
      show ?thesis
        by (rule handleTerminalQueries_split [OF nb ns])
    qed
    then show "handleTerminalQueries t (pre @ ESC # ''[14t'' @ post)
           = (fst (handleTerminalQueries t pre) @ fst (handleTerminalQueries t post),
              snd (handleTerminalQueries t pre) @ ?resp # snd (handleTerminalQueries t post))"
      using h [of post] by simp
  qed
  have e: "open_osc pre \<and> osc_terminated post \<longrightarrow>
         (\<exists>a d b. pre = a @ ESC # CHR '']'' # CHR ''1'' # d # CHR '';'' # b
            \<and> (d = CHR ''0'' \<or> d = CHR ''1'') \<and> \<not> open_osc a \<and> \<not> osc_terminated b
            \<and> handleTerminalQueries t (pre @ ESC # ''[14t'' @ post)
                = (fst (handleTerminalQueries t a)
                     @ fst (handleTerminalQueries t (drop (nat (findOSCEnd post 0)) post)),
                   snd (handleTerminalQueries t a)
                     @ colour_response d
                     # snd (handleTerminalQueries t (drop (nat (findOSCEnd post 0)) post))))"
  proof
    assume o: "open_osc pre \<and> osc_terminated post"
    then obtain a d b where pre: "pre = a @ ESC # CHR '']'' # CHR ''1'' # d # CHR '';'' # b"
      and d: "d = CHR ''0'' \<or> d = CHR ''1''" and na: "\<not> open_osc a"
      and nb: "\<not> osc_terminated b"
      using open_osc_decompose [of pre] by blast
    let ?rest = "CHR '']'' # CHR ''1'' # d # CHR '';'' # b @ ESC # ''[14t'' @ post"
    have "handleTerminalQueries t (a @ ESC # ?rest)
            = (fst (handleTerminalQueries t a) @ fst (handleTerminalQueries t (ESC # ?rest)),
               snd (handleTerminalQueries t a) @ snd (handleTerminalQueries t (ESC # ?rest)))"
      using na by (rule handleTerminalQueries_split_closed)
    moreover have "handleTerminalQueries t (ESC # ?rest)
            = (fst (handleTerminalQueries t (drop (nat (findOSCEnd post 0)) post)),
               colour_response d
                 # snd (handleTerminalQueries t (drop (nat (findOSCEnd post 0)) post)))"
      using enclosed_query_swallowed [OF d nb, of post t] o by simp
    ultimately have "handleTerminalQueries t (pre @ ESC # ''[14t'' @ post)
                = (fst (handleTerminalQueries t a)
                     @ fst (handleTerminalQueries t (drop (nat (findOSCEnd post 0)) post)),
                   snd (handleTerminalQueries t a)
                     @ colour_response d
                     # snd (handleTerminalQueries t (drop (nat (findOSCEnd post 0)) post)))"
      by (simp add: pre)
    then show "\<exists>a d b. pre = a @ ESC # CHR '']'' # CHR ''1'' # d # CHR '';'' # b
            \<and> (d = CHR ''0'' \<or> d = CHR ''1'') \<and> \<not> open_osc a \<and> \<not> osc_terminated b
            \<and> handleTerminalQueries t (pre @ ESC # ''[14t'' @ post)
                = (fst (handleTerminalQueries t a)
                     @ fst (handleTerminalQueries t (drop (nat (findOSCEnd post 0)) post)),
                   snd (handleTerminalQueries t a)
                     @ colour_response d
                     # snd (handleTerminalQueries t (drop (nat (findOSCEnd post 0)) post)))"
      using pre d na nb by blast
  qed
  have c: "rows t = 24 \<and> cols t = 80 \<longrightarrow>
          handleTerminalQueries t (ESC # ''[14t'') = ([], [ESC # ''[4;384;640t''])"
    using h [of "[]"] by (simp add: handleTerminalQueries_Nil sprint_d_def digits.simps)
  show ?thesis
    using s e b a c by blast
qed

text \<open>
  Instances: the query between \<open>ESC [ 2 J\<close> and \<open>BEL\<close> is answered, and both neighbours reach
  the output; the query between plain bytes is answered; the query after the open colour
  query \<open>ESC ] 1 1 ;\<close> and before \<open>BEL\<close> is skipped with it.
\<close>

theorem C6_witness:
  "handleTerminalQueries session0 ((ESC # ''[2J'') @ ESC # ''[14t'' @ [BEL])
     = (ESC # ''[2J'' @ [BEL], [ESC # ''[4;384;640t''])
   \<and> handleTerminalQueries session0 (''ab'' @ ESC # ''[14t'' @ ''cd'')
     = (''abcd'', [ESC # ''[4;384;640t''])
   \<and> handleTerminalQueries session0 (ESC # ''[14t'') = ([], [ESC # ''[4;384;640t''])
   \<and> handleTerminalQueries session0 ((ESC # '']11;'') @ ESC # ''[14t'' @ [BEL])
     = ([], [respondToBackgroundColorQuery])"
proof -
  have e: "ESC \<notin> set ''ab''" "ESC \<notin> set ''cd''" "BEL \<noteq> ESC"
    by (simp_all add: ESC_def BEL_def)
  have cd: "handleTerminalQueries session0 ''cd'' = (''cd'', [])"
    using handleTerminalQueries_plain_prefix [OF e(2), of session0 "[]"]
    by (simp add: handleTerminalQueries_Nil)
  have bel: "handleTerminalQueries session0 [BEL] = ([BEL], [])"
    using e(3) by (simp add: handleTerminalQueries_plain handleTerminalQueries_Nil)
  have j: "handleTerminalQueries session0 (ESC # ''[2J'') = (ESC # ''[2J'', [])"
    using dsr_not_intercepted [where x = "CHR ''2''" and y = "CHR ''J''" and rest = "[]"
        and t = session0]
    by (simp add: handleTerminalQueries_Nil ESC_def)
  have o: "\<not> (open_osc (ESC # ''[2J'') \<and> osc_terminated [BEL])"
    "open_osc (ESC # '']11;'') \<and> osc_terminated [BEL]"
    by (simp_all add: osc_terminated_def)
  have f: "findOSCEnd [BEL] 0 = 1"
    by (simp add: findOSCEnd.simps)
  have sz: "0 \<le> rows session0" "rows session0 \<le> 65535" "0 \<le> cols session0"
    "cols session0 \<le> 65535"
    by (simp_all add: session0_def)
  have p: "rows session0 * 16 = 384" "cols session0 * 8 = 640" "rows session0 = 24 \<and> cols session0 = 80"
    by (simp_all add: session0_def)
  have d: "sprint_d 384 = ''384''" "sprint_d 640 = ''640''"
    by (simp_all add: sprint_d_def digits.simps)
  note T = C6_window_size_pixels [OF sz]
  have "handleTerminalQueries session0 ((ESC # ''[2J'') @ ESC # ''[14t'' @ [BEL])
     = (fst (handleTerminalQueries session0 (ESC # ''[2J'')) @ fst (handleTerminalQueries session0 [BEL]),
        snd (handleTerminalQueries session0 (ESC # ''[2J''))
          @ (ESC # ''[4;'' @ sprint_d (rows session0 * 16) @ '';'' @ sprint_d (cols session0 * 8) @ ''t'')
          # snd (handleTerminalQueries session0 [BEL]))"
    using o(1) by (rule T [THEN conjunct1, THEN mp])
  then have w1: "handleTerminalQueries session0 ((ESC # ''[2J'') @ ESC # ''[14t'' @ [BEL])
     = (ESC # ''[2J'' @ [BEL], [ESC # ''[4;384;640t''])"
    by (simp add: j bel p d)
  have "handleTerminalQueries session0 (''ab'' @ ESC # ''[14t'' @ ''cd'')
     = (''ab'' @ fst (handleTerminalQueries session0 ''cd''),
        (ESC # ''[4;'' @ sprint_d (rows session0 * 16) @ '';'' @ sprint_d (cols session0 * 8) @ ''t'')
          # snd (handleTerminalQueries session0 ''cd''))"
    using e(1) by (rule T [THEN conjunct2, THEN conjunct2, THEN conjunct1, THEN mp])
  then have w2: "handleTerminalQueries session0 (''ab'' @ ESC # ''[14t'' @ ''cd'')
     = (''abcd'', [ESC # ''[4;384;640t''])"
    by (simp add: cd p d)
  have w3: "handleTerminalQueries session0 (ESC # ''[14t'') = ([], [ESC # ''[4;384;640t''])"
    using p(3)
    by (rule T [THEN conjunct2, THEN conjunct2, THEN conjunct2, THEN conjunct2, THEN mp])
  have "\<exists>a d b. ESC # '']11;'' = a @ ESC # CHR '']'' # CHR ''1'' # d # CHR '';'' # b
            \<and> (d = CHR ''0'' \<or> d = CHR ''1'') \<and> \<not> open_osc a \<and> \<not> osc_terminated b
            \<and> handleTerminalQueries session0 ((ESC # '']11;'') @ ESC # ''[14t'' @ [BEL])
                = (fst (handleTerminalQueries session0 a)
                     @ fst (handleTerminalQueries session0 (drop (nat (findOSCEnd [BEL] 0)) [BEL])),
                   snd (handleTerminalQueries session0 a)
                     @ colour_response d
                     # snd (handleTerminalQueries session0 (drop (nat (findOSCEnd [BEL] 0)) [BEL])))"
    using o(2) by (rule T [THEN conjunct2, THEN conjunct1, THEN mp])
  then have w4: "handleTerminalQueries session0 ((ESC # '']11;'') @ ESC # ''[14t'' @ [BEL])
     = ([], [respondToBackgroundColorQuery])"
  proof (elim exE conjE)
    fix a d' b
    assume q: "ESC # '']11;'' = a @ ESC # CHR '']'' # CHR ''1'' # d' # CHR '';'' # b"
      and r: "handleTerminalQueries session0 ((ESC # '']11;'') @ ESC # ''[14t'' @ [BEL])
                = (fst (handleTerminalQueries session0 a)
                     @ fst (handleTerminalQueries session0 (drop (nat (findOSCEnd [BEL] 0)) [BEL])),
                   snd (handleTerminalQueries session0 a)
                     @ colour_response d'
                     # snd (handleTerminalQueries session0 (drop (nat (findOSCEnd [BEL] 0)) [BEL])))"
    from q have "length (ESC # '']11;'')
        = length (a @ ESC # CHR '']'' # CHR ''1'' # d' # CHR '';'' # b)"
      by (rule arg_cong)
    then have ab: "a = []" "b = []"
      by simp_all
    then have "d' = CHR ''1''"
      using q by simp
    then show ?thesis
      unfolding r ab f by (simp add: handleTerminalQueries_Nil colour_response_def)
  qed
  show ?thesis
    using w1 w2 w3 w4 by (simp only: simp_thms)
qed

text \<open>
  Without the exception the statement fails: in the buffer \<open>ESC ] 1 1 ; ESC [ 1 4 t BEL\<close> the
  colour query is matched from its prefix to \<open>BEL\<close>, the whole buffer is skipped, and the only
  write is the colour response; no window size is written.
\<close>

theorem C6_enclosed_query_counterexample:
  "handleTerminalQueries session0 (ESC # '']11;'' @ ESC # ''[14t'' @ [BEL])
     = ([], [ESC # '']11;rgb:0000/0000/0000'' @ [ESC, BACKSLASH]])
   \<and> ESC # ''[4;384;640t''
       \<notin> set (snd (handleTerminalQueries session0 (ESC # '']11;'' @ ESC # ''[14t'' @ [BEL])))"
proof -
  have t: "osc_terminated [BEL]" "\<not> osc_terminated []"
    by (simp_all add: osc_terminated_def)
  have f: "findOSCEnd [BEL] 0 = 1"
    by (simp add: findOSCEnd.simps)
  have "handleTerminalQueries session0 (ESC # '']11;'' @ ESC # ''[14t'' @ [BEL])
     = ([], [respondToBackgroundColorQuery])"
    using enclosed_query_swallowed [of "CHR ''1''" "[]" "[BEL]" session0] t f
    by (simp add: handleTerminalQueries_Nil colour_response_def)
  then show ?thesis
    by (simp add: respondToBackgroundColorQuery_def ESC_def)
qed

section \<open>Colour queries without terminator\<close>

text \<open>
  C7: when the bytes after the prefix \<open>ESC ] 1 0 ;\<close> or \<open>ESC ] 1 1 ;\<close> contain neither \<open>BEL\<close>
  nor \<open>ESC\<close> followed by a backslash, then, whatever the bytes \<open>pre\<close> before the prefix are,
  the prefix is not matched: no query is handled at its position and nothing is written for
  it, and its five bytes reach the output unchanged, between the filtered \<open>pre\<close> and the
  filtered rest of the buffer; the writes are those of \<open>pre\<close> and of the rest. When \<open>pre\<close>
  holds no escape character, the output is \<open>pre\<close>, the five bytes and the filtered rest.
\<close>

theorem C7_unterminated_osc_passes:
  assumes "BEL \<notin> set rest" and "\<not> sublist [ESC, BACKSLASH] rest"
    and "d = CHR ''0'' \<or> d = CHR ''1''"
  shows "tryHandleQuery t (pre @ ESC # CHR '']'' # CHR ''1'' # d # CHR '';'' # rest) (length pre)
           = (0, [])
    \<and> handleTerminalQueries t (pre @ ESC # CHR '']'' # CHR ''1'' # d # CHR '';'' # rest)
        = (fst (handleTerminalQueries t pre)
             @ ESC # CHR '']'' # CHR ''1'' # d # CHR '';'' # fst (handleTerminalQueries t rest),
           snd (handleTerminalQueries t pre) @ snd (handleTerminalQueries t rest))
    \<and> (ESC \<notin> set pre \<longrightarrow>
        handleTerminalQueries t (pre @ ESC # CHR '']'' # CHR ''1'' # d # CHR '';'' # rest)
          = (pre @ ESC # CHR '']'' # CHR ''1'' # d # CHR '';'' # fst (handleTerminalQueries t rest),
             snd (handleTerminalQueries t rest)))"
proof -
  let ?q = "ESC # CHR '']'' # CHR ''1'' # d # CHR '';'' # rest"
  have "findOSCEnd ?q 5 = - 1"
    using assms(1,2) findOSCEnd_none [of 5 ?q] by simp
  then have q: "tryHandleQuery t ?q 0 = (0, [])"
    by (simp add: tryHandleQuery_def tryHandleCSIQuery_def tryHandleOSCQuery_def)
  have e: "CHR '']'' \<noteq> ESC" "CHR ''1'' \<noteq> ESC" "d \<noteq> ESC" "CHR '';'' \<noteq> ESC"
    using assms(3) by (auto simp: ESC_def)
  have "handleTerminalQueries t ?q
          = (ESC # fst (handleTerminalQueries t (CHR '']'' # CHR ''1'' # d # CHR '';'' # rest)),
             snd (handleTerminalQueries t (CHR '']'' # CHR ''1'' # d # CHR '';'' # rest)))"
    using handleTerminalQueries_pass [OF q] by simp
  moreover have "handleTerminalQueries t ([CHR '']'', CHR ''1'', d, CHR '';''] @ rest)
          = ([CHR '']'', CHR ''1'', d, CHR '';''] @ fst (handleTerminalQueries t rest),
             snd (handleTerminalQueries t rest))"
    using e by (intro handleTerminalQueries_plain_prefix) simp
  ultimately have h: "handleTerminalQueries t ?q
          = (ESC # CHR '']'' # CHR ''1'' # d # CHR '';'' # fst (handleTerminalQueries t rest),
             snd (handleTerminalQueries t rest))"
    by simp
  have nb: "BEL \<notin> set (CHR '']'' # CHR ''1'' # d # CHR '';'' # rest)"
    using assms(1,3) by (auto simp: BEL_def)
  have ns: "\<not> sublist [ESC, BACKSLASH] ?q"
    using assms(2,3) by (auto simp: sublist_Cons_right ESC_def BACKSLASH_def)
  have a: "tryHandleQuery t (pre @ ?q) (length pre) = (0, [])"
    using q tryHandleQuery_append [of t pre ?q 0] by simp
  have b: "handleTerminalQueries t (pre @ ?q)
        = (fst (handleTerminalQueries t pre)
             @ ESC # CHR '']'' # CHR ''1'' # d # CHR '';'' # fst (handleTerminalQueries t rest),
           snd (handleTerminalQueries t pre) @ snd (handleTerminalQueries t rest))"
    using handleTerminalQueries_split [OF nb ns, of t pre] h by simp
  have c: "ESC \<notin> set pre \<longrightarrow> handleTerminalQueries t (pre @ ?q)
          = (pre @ ESC # CHR '']'' # CHR ''1'' # d # CHR '';'' # fst (handleTerminalQueries t rest),
             snd (handleTerminalQueries t rest))"
    using h handleTerminalQueries_plain_prefix [of pre t ?q] by simp
  show ?thesis
    using a b c by simp
qed

theorem C7_witness:
  "handleTerminalQueries session0 (''x'' @ ESC # '']11;?'') = (''x'' @ ESC # '']11;?'', [])
   \<and> handleTerminalQueries session0 (ESC # '']10;?'' @ [ESC]) = (ESC # '']10;?'' @ [ESC], [])"
proof -
  have e: "ESC \<notin> set ''x''" "ESC \<notin> set ''?''" "BEL \<notin> set ''?''" "BEL \<noteq> ESC"
    "ESC \<noteq> BACKSLASH" "CHR ''?'' \<noteq> ESC"
    by (simp_all add: ESC_def BEL_def BACKSLASH_def)
  have r: "handleTerminalQueries session0 ''?'' = (''?'', [])"
    "handleTerminalQueries session0 (''?'' @ [ESC]) = (''?'' @ [ESC], [])"
    "handleTerminalQueries session0 ''x'' = (''x'', [])"
    "handleTerminalQueries session0 [] = ([], [])"
    using e by (simp_all add: handleTerminalQueries_plain handleTerminalQueries_Nil)
  have s: "\<not> sublist [ESC, BACKSLASH] ''?''" "\<not> sublist [ESC, BACKSLASH] (''?'' @ [ESC])"
    using e by (simp_all add: sublist_Cons_right)
  show ?thesis
    using C7_unterminated_osc_passes [of "''?''" "CHR ''1''" session0 "''x''"]
      C7_unterminated_osc_passes [of "''?'' @ [ESC]" "CHR ''0''" session0 "[]"] e r s
    by simp
qed

end
